theory Spec2Isabelle
  imports Complex_Main "HOL-Library.Word" "HOL-Library.FuncSet"
begin

section \<open>Data model\<close>

text \<open>
  One grid position, as \<^verbatim>\<open>struct cell\<close> declares it. The adjacency count is a
  \<^verbatim>\<open>Uint8\<close>, hence an 8-bit word.
\<close>

record cell =
  mine :: bool
  exploded :: bool
  flag :: bool
  qmark :: bool
  visible :: bool
  mistake :: bool
  adj :: "8 word"

datatype game_status = game_active | game_won | game_lost

text \<open>
  The session state the grid operations read and write: the globals \<^verbatim>\<open>grid_width\<close>,
  \<^verbatim>\<open>grid_height\<close>, \<^verbatim>\<open>minefield\<close> (a flat array addressed as
  \<^verbatim>\<open>grid_width*y + x\<close>), \<^verbatim>\<open>visible_cell_count\<close> and \<^verbatim>\<open>status\<close>.
  The record describes a session after the first \<^verbatim>\<open>new_game\<close>, when the array is
  allocated.
\<close>

record game =
  grid_width :: int
  grid_height :: int
  minefield :: "cell list"
  visible_cell_count :: int
  status :: game_status

datatype error = AssertionFailed

definition idx :: "game \<Rightarrow> int \<Rightarrow> int \<Rightarrow> nat" where
  "idx g x y = nat (grid_width g * y + x)"

definition cell_at :: "game \<Rightarrow> int \<Rightarrow> int \<Rightarrow> cell" where
  "cell_at g x y = minefield g ! idx g x y"

definition upd_cell :: "game \<Rightarrow> int \<Rightarrow> int \<Rightarrow> (cell \<Rightarrow> cell) \<Rightarrow> game" where
  "upd_cell g x y f = g\<lparr>minefield := (minefield g)[idx g x y := f (minefield g ! idx g x y)]\<rparr>"

text \<open>
  The window every neighbour loop walks: rows \<^verbatim>\<open>max(y-1,0) .. min(y+1,grid_height-1)\<close>,
  inside each row columns \<^verbatim>\<open>max(x-1,0) .. min(x+1,grid_width-1)\<close>, the centre skipped.
\<close>

definition nbrs :: "game \<Rightarrow> int \<Rightarrow> int \<Rightarrow> (int \<times> int) list" where
  "nbrs g x y =
     concat (map (\<lambda>j. concat (map (\<lambda>i. if i = x \<and> j = y then [] else [(i, j)])
                                   [max (x - 1) 0 .. min (x + 1) (grid_width g - 1)]))
                 [max (y - 1) 0 .. min (y + 1) (grid_height g - 1)])"

text \<open>The whole grid in the order of the row-major double loops: \<^verbatim>\<open>y\<close> outside, \<^verbatim>\<open>x\<close> inside.\<close>

definition cells :: "game \<Rightarrow> (int \<times> int) list" where
  "cells g = concat (map (\<lambda>y. map (\<lambda>x. (x, y)) [0 .. grid_width g - 1]) [0 .. grid_height g - 1])"

section \<open>Region reveal\<close>

text \<open>
  \<^verbatim>\<open>bucket_reveal\<close> recurses through the neighbour loop; the first argument bounds the
  depth of the recursion, and \<open>None\<close> means that the bound was too small.
\<close>

fun bucket_reveal :: "nat \<Rightarrow> game \<Rightarrow> int \<Rightarrow> int \<Rightarrow> game option" where
  "bucket_reveal 0 g x y = None"
| "bucket_reveal (Suc fuel) g x y =
     (let g1 = (if \<not> visible (cell_at g x y)
                then (upd_cell g x y (\<lambda>c. c\<lparr>visible := True\<rparr>))
                       \<lparr>visible_cell_count := visible_cell_count g + 1\<rparr>
                else g);
          g2 = upd_cell g1 x y (\<lambda>c. c\<lparr>flag := False\<rparr>);
          g3 = upd_cell g2 x y (\<lambda>c. c\<lparr>qmark := False\<rparr>)
      in if adj (cell_at g3 x y) = 0
         then fold (\<lambda>(i, j) r. case r of None \<Rightarrow> None
                       | Some s \<Rightarrow> if \<not> visible (cell_at s i j) then bucket_reveal fuel s i j
                                   else Some s)
                   (nbrs g3 x y) (Some g3)
         else Some g3)"

section \<open>Grid model\<close>

definition spawn_mine :: "game \<Rightarrow> int \<Rightarrow> int \<Rightarrow> bool \<times> game" where
  "spawn_mine g x y =
     (if mine (cell_at g x y) then (False, g)
      else (True, fold (\<lambda>(i, j) s. upd_cell s i j (\<lambda>c. c\<lparr>adj := adj c + 1\<rparr>))
                       (nbrs g x y)
                       (upd_cell g x y (\<lambda>c. c\<lparr>mine := True\<rparr>))))"

definition remove_mine :: "nat \<Rightarrow> game \<Rightarrow> int \<Rightarrow> int \<Rightarrow> (bool \<times> game) option" where
  "remove_mine fuel g x y =
     (if \<not> mine (cell_at g x y) then Some (False, g)
      else
        let g1 = upd_cell g x y (\<lambda>c. c\<lparr>mine := False\<rparr>);
            g2 = fold (\<lambda>(i, j) s. upd_cell s i j (\<lambda>c. c\<lparr>adj := adj c - 1\<rparr>)) (nbrs g1 x y) g1
        in map_option (Pair True)
             (fold (\<lambda>(i, j) r. case r of None \<Rightarrow> None
                      | Some s \<Rightarrow> if visible (cell_at s i j) then bucket_reveal fuel s i j
                                  else Some s)
                   (nbrs g2 x y) (Some g2)))"

definition check_for_flag_mistakes :: "game \<Rightarrow> game" where
  "check_for_flag_mistakes g =
     fold (\<lambda>i s. if flag (minefield s ! nat i) \<and> \<not> mine (minefield s ! nat i)
                  then s\<lparr>minefield := (minefield s)[nat i := (minefield s ! nat i)\<lparr>mistake := True\<rparr>]\<rparr>
                  else s)
          [0 .. grid_width g * grid_height g - 1] g"

definition end_game :: "game \<Rightarrow> bool \<Rightarrow> game" where
  "end_game g won = check_for_flag_mistakes (g\<lparr>status := (if won then game_won else game_lost)\<rparr>)"

text \<open>
  \<^verbatim>\<open>new_game\<close>: a fresh array of zero-initialised cells, then one Bernoulli trial per
  cell in row-major order; \<open>bernoulli x y\<close> is the outcome of the trial made for cell
  \<open>(x, y)\<close>.
\<close>

definition virgin :: cell where
  "virgin = \<lparr>mine = False, exploded = False, flag = False, qmark = False, visible = False,
             mistake = False, adj = 0\<rparr>"

definition new_game :: "int \<Rightarrow> int \<Rightarrow> (int \<Rightarrow> int \<Rightarrow> bool) \<Rightarrow> game" where
  "new_game w h bernoulli =
     (let g0 = \<lparr>grid_width = w, grid_height = h, minefield = replicate (nat (w * h)) virgin,
                visible_cell_count = 0, status = game_lost\<rparr>;
          g1 = fold (\<lambda>(x, y) s. if bernoulli x y then snd (spawn_mine s x y) else s) (cells g0) g0
      in g1\<lparr>status := game_active\<rparr>)"

definition mines_total :: "game \<Rightarrow> int" where
  "mines_total g =
     fold (\<lambda>i count. if mine (minefield g ! nat i) then count + 1 else count)
          [0 .. grid_width g * grid_height g - 1] 0"

definition count_adjacent_mines :: "game \<Rightarrow> int \<Rightarrow> int \<Rightarrow> int" where
  "count_adjacent_mines g x y =
     fold (\<lambda>(i, j) count. if mine (cell_at g i j) then count + 1 else count) (nbrs g x y) 0"

definition count_adjacent_revealed_cells :: "game \<Rightarrow> int \<Rightarrow> int \<Rightarrow> int" where
  "count_adjacent_revealed_cells g x y =
     fold (\<lambda>(i, j) count. if visible (cell_at g i j) then count + 1 else count) (nbrs g x y) 0"

definition recompute_minefield_adj :: "game \<Rightarrow> game" where
  "recompute_minefield_adj g =
     fold (\<lambda>(x, y) s. upd_cell s x y (\<lambda>c. c\<lparr>adj := word_of_int (count_adjacent_mines s x y)\<rparr>))
          (cells g) g"

section \<open>Uniform combination sampler\<close>

text \<open>
  \<^verbatim>\<open>random_combination(n, k, combination)\<close>. Each iteration \<open>j\<close> of the loop draws
  once from \<^verbatim>\<open>uniform_int_distribution(1, j)\<close>, and the values of \<open>j\<close> are distinct, so
  the draws of one call are a function \<open>unif\<close> of \<open>j\<close>. The two assertions are the
  error branches.
\<close>

definition random_combination :: "int \<Rightarrow> int \<Rightarrow> (int \<Rightarrow> int) \<Rightarrow> error + bool list" where
  "random_combination n k unif =
     (if \<not> k \<ge> 0 then Inl AssertionFailed
      else if \<not> n \<ge> k then Inl AssertionFailed
      else Inr (fold (\<lambda>j combination.
                        let r = unif j
                        in if combination ! nat (r - 1)
                           then combination[nat (j - 1) := True]
                           else combination[nat (r - 1) := True])
                     [n - k + 1 .. n]
                     (replicate (nat n) False)))"

section \<open>The feasibility solver's interface\<close>

text \<open>
  The linear program handed to lp_solve: the number of columns given to \<^verbatim>\<open>make_lp\<close>,
  the columns declared binary, and the rows in the order they were added. A row is its
  nonzero entries as (column, coefficient) pairs, its relation and its right-hand side.
\<close>

datatype constr_type = LE | GE | EQ

record lp_row =
  row_entries :: "(int \<times> int) list"
  row_type :: constr_type
  row_rh :: int

record lprec =
  lp_columns :: int
  lp_binary :: "int list"
  lp_rows :: "lp_row list"

datatype solve_code =
  NOMEMORY | SUBOPTIMAL | OPTIMAL | INFEASIBLE | UNBOUNDED | DEGENERATE | NUMFAILURE
  | USERABORT | TIMEOUT | PRESOLVED | PROCFAIL | PROCBREAK | FEASFOUND | NOFEASFOUND

text \<open>
  lp_solve itself is outside the repository and is a parameter: whether \<^verbatim>\<open>make_lp(0, n)\<close>
  returns a model, what \<^verbatim>\<open>solve\<close> returns for a program (the time-out callback is
  part of that answer: \<^verbatim>\<open>USERABORT\<close>), and what \<^verbatim>\<open>get_variables\<close> then stores at
  each index of the solution array.
\<close>

record lp_lib =
  make_lp_ok :: "int \<Rightarrow> bool"
  solve :: "lprec \<Rightarrow> solve_code"
  get_variables :: "lprec \<Rightarrow> int \<Rightarrow> real"

definition add_constraintex :: "lprec \<Rightarrow> int list \<Rightarrow> constr_type \<Rightarrow> int \<Rightarrow> lprec" where
  "add_constraintex lp colno ct rh =
     lp\<lparr>lp_rows := lp_rows lp @ [\<lparr>row_entries = map (\<lambda>c. (c, 1)) colno, row_type = ct, row_rh = rh\<rparr>]\<rparr>"

definition add_constraint :: "lprec \<Rightarrow> constr_type \<Rightarrow> int \<Rightarrow> lprec" where
  "add_constraint lp ct rh =
     lp\<lparr>lp_rows := lp_rows lp @ [\<lparr>row_entries = map (\<lambda>c. (c, 1)) [1 .. lp_columns lp],
                                   row_type = ct, row_rh = rh\<rparr>]\<rparr>"

definition get_Nrows :: "lprec \<Rightarrow> int" where
  "get_Nrows lp = int (length (lp_rows lp))"

definition lround :: "real \<Rightarrow> int" where
  "lround v = (if 0 \<le> v then \<lfloor>v + 1 / 2\<rfloor> else - \<lfloor>- v + 1 / 2\<rfloor>)"

section \<open>Partitioner\<close>

text \<open>The counters and the column lookup array that the pre-processing pass fills.\<close>

record partition =
  dh_cells :: int
  num_m :: int
  num_n :: int
  dh_mine_count :: int
  sh_mine_count :: int
  column_lookup :: "int list"

definition partition_step :: "game \<Rightarrow> int \<times> int \<Rightarrow> partition \<Rightarrow> partition" where
  "partition_step g = (\<lambda>(x, y) p.
     if visible (cell_at g x y)
     then (if adj (cell_at g x y) \<noteq> 0 then p\<lparr>num_m := num_m p + 1\<rparr> else p)
     else if count_adjacent_revealed_cells g x y = 0
     then (let p1 = p\<lparr>dh_cells := dh_cells p + 1\<rparr>
           in if mine (cell_at g x y) then p1\<lparr>dh_mine_count := dh_mine_count p1 + 1\<rparr> else p1)
     else (let p1 = p\<lparr>num_n := num_n p + 1\<rparr>;
               p2 = p1\<lparr>column_lookup := (column_lookup p1)[idx g x y := num_n p1]\<rparr>
           in if mine (cell_at g x y) then p2\<lparr>sh_mine_count := sh_mine_count p2 + 1\<rparr> else p2))"

definition partition_pass :: "game \<Rightarrow> partition" where
  "partition_pass g =
     fold (partition_step g) (cells g)
          \<lparr>dh_cells = 0, num_m = 0, num_n = 0, dh_mine_count = 0, sh_mine_count = 0,
           column_lookup = replicate (nat (grid_width g * grid_height g)) 0\<rparr>"

section \<open>Constraint encoder\<close>

definition number_row :: "game \<Rightarrow> int list \<Rightarrow> int \<times> int \<Rightarrow> lprec \<Rightarrow> lprec" where
  "number_row g lookup = (\<lambda>(x, y) lp.
     if visible (cell_at g x y) \<and> adj (cell_at g x y) \<noteq> 0
     then add_constraintex lp
            (map (\<lambda>(i, j). lookup ! idx g i j)
                 (filter (\<lambda>(i, j). \<not> visible (cell_at g i j)) (nbrs g x y)))
            EQ (uint (adj (cell_at g x y)))
     else lp)"

definition build_lp :: "game \<Rightarrow> int \<Rightarrow> int list \<Rightarrow> int \<Rightarrow> int \<Rightarrow> bool \<Rightarrow> bool \<Rightarrow> int \<Rightarrow> int \<Rightarrow> lprec" where
  "build_lp g n lookup gridx gridy mine_present requested_cell_is_deeply_hidden T dh =
     (let lp0 = \<lparr>lp_columns = n, lp_binary = [1 .. n], lp_rows = []\<rparr>;
          lp1 = fold (number_row g lookup) (cells g) lp0;
          min_shallow_mines = T - dh;
          max_shallow_mines = T;
          lp2 = add_constraint lp1 GE min_shallow_mines;
          lp3 = add_constraint lp2 LE max_shallow_mines
      in if \<not> requested_cell_is_deeply_hidden
         then add_constraintex lp3 [lookup ! idx g gridx gridy] EQ (if mine_present then 1 else 0)
         else lp3)"

section \<open>Completion and commit\<close>

definition write_cell ::
  "int \<Rightarrow> int \<Rightarrow> bool \<Rightarrow> (int \<Rightarrow> real) \<Rightarrow> bool list \<Rightarrow> int \<Rightarrow> int \<times> int
     \<Rightarrow> error + (game \<times> int \<times> int) \<Rightarrow> error + (game \<times> int \<times> int)" where
  "write_cell gridx gridy ran_lp solution dh_mines dh = (\<lambda>(x, y) r.
     case r of Inl e \<Rightarrow> Inl e
     | Inr (s, sh_j, dh_j) \<Rightarrow>
         if \<not> visible (cell_at s x y)
         then (if count_adjacent_revealed_cells s x y \<noteq> 0
               then (if ran_lp
                     then Inr (upd_cell s x y (\<lambda>c. c\<lparr>mine := (solution sh_j = 1)\<rparr>), sh_j + 1, dh_j)
                     else Inr (s, sh_j, dh_j))
               else if \<not> (x = gridx \<and> y = gridy)
               then (if \<not> dh_j < dh then Inl AssertionFailed
                     else Inr (upd_cell s x y (\<lambda>c. c\<lparr>mine := dh_mines ! nat dh_j\<rparr>), sh_j, dh_j + 1))
               else Inr (s, sh_j, dh_j))
         else Inr (s, sh_j, dh_j))"

definition commit ::
  "(int \<Rightarrow> int) \<Rightarrow> game \<Rightarrow> int \<Rightarrow> int \<Rightarrow> bool \<Rightarrow> bool \<Rightarrow> bool \<Rightarrow> (int \<Rightarrow> real) \<Rightarrow> int \<Rightarrow> int
     \<Rightarrow> int \<Rightarrow> int \<Rightarrow> error + (bool \<times> game)" where
  "commit unif g gridx gridy mine_present requested_cell_is_deeply_hidden ran_lp solution n
          sh_mines T dh =
     (let S = (if ran_lp then fold (\<lambda>j S. S + lround (solution j)) [0 .. n - 1] 0 else sh_mines)
      in case random_combination dh (T - S) unif of
           Inl e \<Rightarrow> Inl e
         | Inr dh_mines \<Rightarrow>
             (case fold (write_cell gridx gridy ran_lp solution dh_mines dh) (cells g) (Inr (g, 0, 0)) of
                Inl e \<Rightarrow> Inl e
              | Inr (g1, sh_j, dh_j) \<Rightarrow>
                  let g2 = (if requested_cell_is_deeply_hidden
                            then upd_cell g1 gridx gridy (\<lambda>c. c\<lparr>mine := mine_present\<rparr>)
                            else g1)
                  in Inr (True, recompute_minefield_adj g2)))"

section \<open>The consistency engine\<close>

text \<open>
  \<^verbatim>\<open>alter_minefield\<close> after its four early returns: the partition pass with its two
  assertions, the short-circuits, the solver call and the commit. \<open>T0\<close> is
  \<^verbatim>\<open>mines_total()\<close>.
\<close>

definition alter_search ::
  "lp_lib \<Rightarrow> (int \<Rightarrow> int) \<Rightarrow> game \<Rightarrow> int \<Rightarrow> int \<Rightarrow> bool \<Rightarrow> int \<Rightarrow> error + (bool \<times> game)" where
  "alter_search lib unif g gridx gridy mine_present T0 =
     (let requested_cell_is_deeply_hidden = (count_adjacent_revealed_cells g gridx gridy = 0);
          p = partition_pass g
      in if \<not> ((num_m p = 0) = (num_n p = 0)) then Inl AssertionFailed
         else if \<not> (T0 = sh_mine_count p + dh_mine_count p) then Inl AssertionFailed
         else
           let dh = (if requested_cell_is_deeply_hidden then dh_cells p - 1 else dh_cells p);
               T = (if requested_cell_is_deeply_hidden \<and> mine_present then T0 - 1 else T0)
           in if num_m p = 0
              then commit unif g gridx gridy mine_present requested_cell_is_deeply_hidden False
                     (\<lambda>j. 0) (num_n p) (sh_mine_count p) T dh
              else if requested_cell_is_deeply_hidden \<and> mine_present \<and> dh_mine_count p > 0
              then commit unif g gridx gridy mine_present requested_cell_is_deeply_hidden False
                     (\<lambda>j. 0) (num_n p) (sh_mine_count p) T dh
              else if requested_cell_is_deeply_hidden \<and> \<not> mine_present \<and> dh_mine_count p < dh
              then commit unif g gridx gridy mine_present requested_cell_is_deeply_hidden False
                     (\<lambda>j. 0) (num_n p) (sh_mine_count p) T dh
              else if \<not> make_lp_ok lib (num_n p) then Inr (False, g)
              else
                let lp = build_lp g (num_n p) (column_lookup p) gridx gridy mine_present
                           requested_cell_is_deeply_hidden T dh
                in if \<not> (get_Nrows lp = num_m p + 2 + (if requested_cell_is_deeply_hidden then 0 else 1))
                   then Inl AssertionFailed
                   else
                     let solver_outcome = solve lib lp;
                         success = (solver_outcome = OPTIMAL \<or> solver_outcome = SUBOPTIMAL)
                     in if success
                        then commit unif g gridx gridy mine_present requested_cell_is_deeply_hidden
                               True (get_variables lib lp) (num_n p) (sh_mine_count p) T dh
                        else Inr (False, g))"

definition alter_minefield ::
  "lp_lib \<Rightarrow> (int \<Rightarrow> int) \<Rightarrow> game \<Rightarrow> int \<Rightarrow> int \<Rightarrow> bool \<Rightarrow> error + (bool \<times> game)" where
  "alter_minefield lib unif g gridx gridy mine_present =
     (if mine_present = mine (cell_at g gridx gridy) then Inr (True, g)
      else if visible (cell_at g gridx gridy) then Inr (mine_present = False, g)
      else
        let T = mines_total g
        in if T = 0 then Inr (False, g)
           else if T = grid_width g * grid_height g \<and> \<not> mine_present then Inr (False, g)
           else alter_search lib unif g gridx gridy mine_present T)"

section \<open>Chording\<close>

text \<open>
  \<^verbatim>\<open>chord_reveal\<close>. The counting loop returns from the function at the first
  question-marked neighbour: its accumulator is \<open>None\<close> from then on. The second
  loop threads the depth bound of \<^verbatim>\<open>bucket_reveal\<close>.
\<close>

definition chord_reveal :: "nat \<Rightarrow> game \<Rightarrow> int \<Rightarrow> int \<Rightarrow> game option" where
  "chord_reveal fuel g x y =
     (case fold (\<lambda>(i, j) r. case r of None \<Rightarrow> None
                   | Some flag_count \<Rightarrow>
                       if qmark (cell_at g i j) then None
                       else if \<not> visible (cell_at g i j) \<and> flag (cell_at g i j)
                       then Some (flag_count + 1)
                       else Some flag_count)
                (nbrs g x y) (Some (0 :: int)) of
        None \<Rightarrow> Some g
      | Some flag_count \<Rightarrow>
          if uint (adj (cell_at g x y)) = flag_count
          then fold (\<lambda>(i, j) r. case r of None \<Rightarrow> None
                       | Some s \<Rightarrow>
                           if \<not> visible (cell_at s i j) \<and> \<not> flag (cell_at s i j)
                              \<and> \<not> qmark (cell_at s i j)
                           then (if mine (cell_at s i j)
                                 then Some (end_game (upd_cell s i j (\<lambda>c. c\<lparr>exploded := True\<rparr>)) False)
                                 else bucket_reveal fuel s i j)
                           else Some s)
                    (nbrs g x y) (Some g)
          else Some g)"

section \<open>Example sessions\<close>

text \<open>A solver that never finds a feasible point, and a generator that always draws 1.\<close>

definition lib_infeasible :: lp_lib where
  "lib_infeasible = \<lparr>make_lp_ok = (\<lambda>n. True), solve = (\<lambda>lp. INFEASIBLE), get_variables = (\<lambda>lp j. 0)\<rparr>"

definition unif_one :: "int \<Rightarrow> int" where
  "unif_one j = 1"

text \<open>
  A row of four cells: a revealed 1, the mine it counts, and two cells with no revealed
  neighbour.
\<close>

definition row4 :: game where
  "row4 = \<lparr>grid_width = 4, grid_height = 1,
            minefield = [virgin\<lparr>visible := True, adj := 1\<rparr>, virgin\<lparr>mine := True\<rparr>,
                         virgin\<lparr>adj := 1\<rparr>, virgin],
            visible_cell_count = 1, status = game_active\<rparr>"

text \<open>A three by three grid whose only mine is the centre cell, nothing revealed.\<close>

definition centre_mine :: game where
  "centre_mine = new_game 3 3 (\<lambda>x y. x = 1 \<and> y = 1)"


section \<open>Well-formed grids and the adjacency invariant\<close>

definition grid_ok :: "game \<Rightarrow> bool" where
  "grid_ok g = (0 \<le> grid_width g \<and> 0 \<le> grid_height g
                \<and> length (minefield g) = nat (grid_width g * grid_height g))"

definition in_grid :: "game \<Rightarrow> int \<Rightarrow> int \<Rightarrow> bool" where
  "in_grid g x y = (0 \<le> x \<and> x < grid_width g \<and> 0 \<le> y \<and> y < grid_height g)"

definition cells_are_adjacent :: "int \<Rightarrow> int \<Rightarrow> int \<Rightarrow> int \<Rightarrow> bool" where
  "cells_are_adjacent cell1_x cell1_y cell2_x cell2_y =
     (max \<bar>cell1_x - cell2_x\<bar> \<bar>cell1_y - cell2_y\<bar> = 1)"

definition mine_neighbours :: "game \<Rightarrow> int \<Rightarrow> int \<Rightarrow> (int \<times> int) set" where
  "mine_neighbours g x y =
     {(i, j). in_grid g i j \<and> cells_are_adjacent x y i j \<and> mine (cell_at g i j)}"

definition adjacency_invariant :: "game \<Rightarrow> bool" where
  "adjacency_invariant g =
     (\<forall>x y. in_grid g x y \<longrightarrow> uint (adj (cell_at g x y)) = int (card (mine_neighbours g x y)))"

text \<open>Two states with the same dimensions whose cells agree on mine and count.\<close>

definition same_layout :: "game \<Rightarrow> game \<Rightarrow> bool" where
  "same_layout g g' =
     (grid_width g' = grid_width g \<and> grid_height g' = grid_height g
      \<and> length (minefield g') = length (minefield g)
      \<and> (\<forall>k < length (minefield g).
            mine (minefield g' ! k) = mine (minefield g ! k)
            \<and> adj (minefield g' ! k) = adj (minefield g ! k)))"


section \<open>States reachable through the grid operations\<close>

text \<open>
  The states that \<^verbatim>\<open>new_game\<close> produces and that calls of \<^verbatim>\<open>spawn_mine\<close>,
  \<^verbatim>\<open>remove_mine\<close>, \<^verbatim>\<open>bucket_reveal\<close> and successful calls of
  \<^verbatim>\<open>alter_minefield\<close> lead to, at cells of the grid, for any solver, any random
  draws and any recursion bound that suffices.
\<close>

inductive reachable :: "game \<Rightarrow> bool" where
  reach_new: "0 \<le> w \<Longrightarrow> 0 \<le> h \<Longrightarrow> reachable (new_game w h bernoulli)"
| reach_spawn: "reachable g \<Longrightarrow> in_grid g x y \<Longrightarrow> reachable (snd (spawn_mine g x y))"
| reach_remove:
    "reachable g \<Longrightarrow> in_grid g x y \<Longrightarrow> remove_mine fuel g x y = Some (b, g') \<Longrightarrow> reachable g'"
| reach_reveal:
    "reachable g \<Longrightarrow> in_grid g x y \<Longrightarrow> bucket_reveal fuel g x y = Some g' \<Longrightarrow> reachable g'"
| reach_alter:
    "reachable g \<Longrightarrow> in_grid g x y \<Longrightarrow>
     alter_minefield lib unif g x y mine_present = Inr (True, g') \<Longrightarrow> reachable g'"


section \<open>The sampler over sets of positions\<close>

text \<open>
  The positions \<open>1 .. length combination\<close> that hold \<open>True\<close>, and the loop of
  \<^verbatim>\<open>random_combination\<close> read as an operation on that set.
\<close>

definition selected :: "bool list \<Rightarrow> int set" where
  "selected combination =
     {p. 1 \<le> p \<and> p \<le> int (length combination) \<and> combination ! nat (p - 1)}"

definition floyd_step :: "(int \<Rightarrow> int) \<Rightarrow> int \<Rightarrow> int set \<Rightarrow> int set" where
  "floyd_step unif j S = (if unif j \<in> S then insert j S else insert (unif j) S)"

definition floyd_set :: "int \<Rightarrow> int \<Rightarrow> (int \<Rightarrow> int) \<Rightarrow> int set" where
  "floyd_set n k unif = fold (floyd_step unif) [n - k + 1 .. n] {}"

text \<open>
  What \<^verbatim>\<open>uniform_int_distribution(1, j)\<close> promises of the draws of one call, and the
  finite space of all such draws: one value in \<open>1 .. j\<close> for each \<open>j\<close> of the loop. The
  draws are independent and uniform, so every point of the space has the same probability.
\<close>

definition draws_ok :: "int \<Rightarrow> int \<Rightarrow> (int \<Rightarrow> int) \<Rightarrow> bool" where
  "draws_ok n k unif = (\<forall>j \<in> {n - k + 1 .. n}. 1 \<le> unif j \<and> unif j \<le> j)"

definition draw_space :: "int \<Rightarrow> int \<Rightarrow> (int \<Rightarrow> int) set" where
  "draw_space n k = Pi\<^sub>E {n - k + 1 .. n} (\<lambda>j. {1 .. j})"


section \<open>Cell classification\<close>

text \<open>
  The classes of the explanation in \<^verbatim>\<open>alter_minefield\<close>: a revealed number is a visible
  cell with a nonzero count; a hidden cell is shallowly hidden when some neighbour is
  revealed and deeply hidden otherwise. The shallow cells are numbered from 1 in row-major
  order: \<open>variable g c\<close> is the column of the linear program that stands for cell \<open>c\<close>.
\<close>

definition revealed_number :: "game \<Rightarrow> int \<times> int \<Rightarrow> bool" where
  "revealed_number g = (\<lambda>(x, y). visible (cell_at g x y) \<and> adj (cell_at g x y) \<noteq> 0)"

definition shallowly_hidden :: "game \<Rightarrow> int \<times> int \<Rightarrow> bool" where
  "shallowly_hidden g = (\<lambda>(x, y). \<not> visible (cell_at g x y)
                  \<and> (\<exists>(i, j) \<in> set (nbrs g x y). visible (cell_at g i j)))"

definition deeply_hidden :: "game \<Rightarrow> int \<times> int \<Rightarrow> bool" where
  "deeply_hidden g = (\<lambda>(x, y). \<not> visible (cell_at g x y)
               \<and> \<not> (\<exists>(i, j) \<in> set (nbrs g x y). visible (cell_at g i j)))"

definition shown :: "game \<Rightarrow> int \<times> int \<Rightarrow> bool" where
  "shown g = (\<lambda>(x, y). visible (cell_at g x y))"

definition mined :: "game \<Rightarrow> int \<times> int \<Rightarrow> bool" where
  "mined g = (\<lambda>(x, y). mine (cell_at g x y))"

definition hidden_nbrs :: "game \<Rightarrow> int \<times> int \<Rightarrow> (int \<times> int) list" where
  "hidden_nbrs g = (\<lambda>(x, y). filter (\<lambda>(i, j). \<not> visible (cell_at g i j)) (nbrs g x y))"

definition rank_of :: "('a \<Rightarrow> bool) \<Rightarrow> 'a list \<Rightarrow> 'a \<Rightarrow> nat" where
  "rank_of P cs c = length (filter P (takeWhile (\<lambda>d. d \<noteq> c) cs))"

definition variable :: "game \<Rightarrow> int \<times> int \<Rightarrow> int" where
  "variable g c = 1 + int (rank_of (shallowly_hidden g) (cells g) c)"


section \<open>The program handed to the solver\<close>

text \<open>
  The conditions under which \<^verbatim>\<open>alter_minefield\<close> reaches \<^verbatim>\<open>make_lp\<close>, and the
  linear program it has built when it calls \<^verbatim>\<open>solve\<close>.
\<close>

definition solver_invoked :: "game \<Rightarrow> int \<Rightarrow> int \<Rightarrow> bool \<Rightarrow> bool" where
  "solver_invoked g gridx gridy mine_present =
     (let requested_cell_is_deeply_hidden = (count_adjacent_revealed_cells g gridx gridy = 0);
          p = partition_pass g;
          T0 = mines_total g;
          dh = (if requested_cell_is_deeply_hidden then dh_cells p - 1 else dh_cells p)
      in mine_present \<noteq> mine (cell_at g gridx gridy) \<and> \<not> visible (cell_at g gridx gridy)
         \<and> T0 \<noteq> 0 \<and> \<not> (T0 = grid_width g * grid_height g \<and> \<not> mine_present)
         \<and> ((num_m p = 0) = (num_n p = 0)) \<and> T0 = sh_mine_count p + dh_mine_count p
         \<and> num_m p \<noteq> 0
         \<and> \<not> (requested_cell_is_deeply_hidden \<and> mine_present \<and> dh_mine_count p > 0)
         \<and> \<not> (requested_cell_is_deeply_hidden \<and> \<not> mine_present \<and> dh_mine_count p < dh))"

definition solver_input :: "game \<Rightarrow> int \<Rightarrow> int \<Rightarrow> bool \<Rightarrow> lprec" where
  "solver_input g gridx gridy mine_present =
     (let requested_cell_is_deeply_hidden = (count_adjacent_revealed_cells g gridx gridy = 0);
          p = partition_pass g;
          dh = (if requested_cell_is_deeply_hidden then dh_cells p - 1 else dh_cells p);
          T = (if requested_cell_is_deeply_hidden \<and> mine_present then mines_total g - 1
               else mines_total g)
      in build_lp g (num_n p) (column_lookup p) gridx gridy mine_present
           requested_cell_is_deeply_hidden T dh)"

text \<open>The three kinds of row, written over the variables of the shallowly hidden cells.\<close>

definition number_constraint :: "game \<Rightarrow> int \<times> int \<Rightarrow> lp_row" where
  "number_constraint g c =
     \<lparr>row_entries = map (\<lambda>d. (variable g d, 1)) (hidden_nbrs g c), row_type = EQ,
      row_rh = uint (adj (cell_at g (fst c) (snd c)))\<rparr>"

definition bound_constraint :: "int \<Rightarrow> constr_type \<Rightarrow> int \<Rightarrow> lp_row" where
  "bound_constraint n ct rh = \<lparr>row_entries = map (\<lambda>v. (v, 1)) [1 .. n], row_type = ct, row_rh = rh\<rparr>"

definition pin_constraint :: "game \<Rightarrow> int \<times> int \<Rightarrow> bool \<Rightarrow> lp_row" where
  "pin_constraint g c mine_present =
     \<lparr>row_entries = [(variable g c, 1)], row_type = EQ, row_rh = (if mine_present then 1 else 0)\<rparr>"

definition count_cells :: "(int \<times> int \<Rightarrow> bool) \<Rightarrow> game \<Rightarrow> int" where
  "count_cells P g = int (length (filter P (cells g)))"


section \<open>What a commit writes\<close>

text \<open>Two states that differ at most in the mine fields of their cells.\<close>

definition only_mines_differ :: "game \<Rightarrow> game \<Rightarrow> bool" where
  "only_mines_differ g s =
     (grid_width s = grid_width g \<and> grid_height s = grid_height g
      \<and> length (minefield s) = length (minefield g)
      \<and> visible_cell_count s = visible_cell_count g \<and> status s = status g
      \<and> (\<forall>k < length (minefield g).
            (minefield s ! k)\<lparr>mine := False\<rparr> = (minefield g ! k)\<lparr>mine := False\<rparr>))"

text \<open>
  The deeply hidden cells other than the clicked one, which the commit loop fills from the
  sampled mask, and the mine status the loop leaves in each cell: the solver's value for a
  shallowly hidden cell when the solver ran, the mask's entry for a deeply hidden cell
  other than the clicked one, the old status everywhere else.
\<close>

definition deep_other :: "game \<Rightarrow> int \<Rightarrow> int \<Rightarrow> int \<times> int \<Rightarrow> bool" where
  "deep_other g gridx gridy c = (deeply_hidden g c \<and> c \<noteq> (gridx, gridy))"

definition written_mine ::
  "game \<Rightarrow> int \<Rightarrow> int \<Rightarrow> bool \<Rightarrow> (int \<Rightarrow> real) \<Rightarrow> bool list \<Rightarrow> int \<times> int \<Rightarrow> bool" where
  "written_mine g gridx gridy ran_lp solution dh_mines c =
     (if shallowly_hidden g c
      then (if ran_lp then solution (int (rank_of (shallowly_hidden g) (cells g) c)) = 1
            else mined g c)
      else if deep_other g gridx gridy c
      then dh_mines ! rank_of (deep_other g gridx gridy) (cells g) c
      else mined g c)"

text \<open>The contracts of the two collaborators: draws in their range, binary variables.\<close>

definition unif_ok :: "(int \<Rightarrow> int) \<Rightarrow> bool" where
  "unif_ok unif = (\<forall>j. 1 \<le> j \<longrightarrow> 1 \<le> unif j \<and> unif j \<le> j)"

definition lib_binary :: "lp_lib \<Rightarrow> bool" where
  "lib_binary lib = (\<forall>lp j. 0 \<le> j \<and> j < lp_columns lp \<longrightarrow>
                       get_variables lib lp j = 0 \<or> get_variables lib lp j = 1)"


section \<open>Flood fill: the region a reveal discloses\<close>

text \<open>
  \<^verbatim>\<open>bucket_reveal\<close> once more, returning beside the state the cells on which the function
  was entered, in the order of the calls: the clicked cell first, then the cells of the
  recursive calls.
\<close>

fun bucket_reveal_log :: "nat \<Rightarrow> game \<Rightarrow> int \<Rightarrow> int \<Rightarrow> (game \<times> (int \<times> int) list) option" where
  "bucket_reveal_log 0 g x y = None"
| "bucket_reveal_log (Suc fuel) g x y =
     (let g1 = (if \<not> visible (cell_at g x y)
                then (upd_cell g x y (\<lambda>c. c\<lparr>visible := True\<rparr>))
                       \<lparr>visible_cell_count := visible_cell_count g + 1\<rparr>
                else g);
          g2 = upd_cell g1 x y (\<lambda>c. c\<lparr>flag := False\<rparr>);
          g3 = upd_cell g2 x y (\<lambda>c. c\<lparr>qmark := False\<rparr>)
      in if adj (cell_at g3 x y) = 0
         then fold (\<lambda>(i, j) r. case r of None \<Rightarrow> None
                       | Some (s, entered) \<Rightarrow>
                           if \<not> visible (cell_at s i j)
                           then (case bucket_reveal_log fuel s i j of None \<Rightarrow> None
                                 | Some (s', entered') \<Rightarrow> Some (s', entered @ entered'))
                           else Some (s, entered))
                   (nbrs g3 x y) (Some (g3, [(x, y)]))
         else Some (g3, [(x, y)]))"

definition visible_set :: "game \<Rightarrow> (int \<times> int) set" where
  "visible_set g = {(x, y). in_grid g x y \<and> visible (cell_at g x y)}"

definition hidden_set :: "game \<Rightarrow> (int \<times> int) set" where
  "hidden_set g = {(x, y). in_grid g x y \<and> \<not> visible (cell_at g x y)}"

text \<open>
  The state every reveal of the game leaves behind: a revealed cell with count zero has all
  its neighbours revealed.
\<close>

definition flood_closed :: "game \<Rightarrow> bool" where
  "flood_closed g =
     (\<forall>x y. in_grid g x y \<longrightarrow> visible (cell_at g x y) \<longrightarrow> adj (cell_at g x y) = 0 \<longrightarrow>
        (\<forall>(i, j) \<in> set (nbrs g x y). visible (cell_at g i j)))"

text \<open>
  The maximal 8-connected region of zero-count cells around \<open>(x, y)\<close>, the nonzero cells
  that border it, and the cells a flood from \<open>(x, y)\<close> can reach: those connected to it by a
  chain of neighbours whose every cell but the last has count zero.
\<close>

inductive_set zero_region :: "game \<Rightarrow> int \<Rightarrow> int \<Rightarrow> (int \<times> int) set" for g x y where
  region_start: "in_grid g x y \<Longrightarrow> adj (cell_at g x y) = 0 \<Longrightarrow> (x, y) \<in> zero_region g x y"
| region_step: "(i, j) \<in> zero_region g x y \<Longrightarrow> (k, l) \<in> set (nbrs g i j) \<Longrightarrow>
                adj (cell_at g k l) = 0 \<Longrightarrow> (k, l) \<in> zero_region g x y"

definition region_border :: "game \<Rightarrow> int \<Rightarrow> int \<Rightarrow> (int \<times> int) set" where
  "region_border g x y =
     {(k, l). adj (cell_at g k l) \<noteq> 0 \<and> (\<exists>(i, j) \<in> zero_region g x y. (k, l) \<in> set (nbrs g i j))}"

inductive_set flood :: "game \<Rightarrow> int \<Rightarrow> int \<Rightarrow> (int \<times> int) set" for g x y where
  flood_start: "in_grid g x y \<Longrightarrow> (x, y) \<in> flood g x y"
| flood_step: "(i, j) \<in> flood g x y \<Longrightarrow> adj (cell_at g i j) = 0 \<Longrightarrow>
               (k, l) \<in> set (nbrs g i j) \<Longrightarrow> (k, l) \<in> flood g x y"

text \<open>The state of a cell after the first three statements of \<^verbatim>\<open>bucket_reveal\<close>.\<close>

definition mark_revealed :: "game \<Rightarrow> int \<Rightarrow> int \<Rightarrow> game" where
  "mark_revealed g x y =
     upd_cell (upd_cell (if \<not> visible (cell_at g x y)
                         then (upd_cell g x y (\<lambda>c. c\<lparr>visible := True\<rparr>))
                                \<lparr>visible_cell_count := visible_cell_count g + 1\<rparr>
                         else g)
                        x y (\<lambda>c. c\<lparr>flag := False\<rparr>))
              x y (\<lambda>c. c\<lparr>qmark := False\<rparr>)"


section \<open>The no-op and revealed-cell returns\<close>

text \<open>
  C5. A call of \<^verbatim>\<open>alter_minefield\<close> on a cell whose mine status already equals the
  request returns success, and the session state it returns is the one it was given:
  every field of every cell is unchanged.
\<close>

theorem alter_minefield_noop:
  "mine (cell_at g gridx gridy) = mine_present \<Longrightarrow>
   alter_minefield lib unif g gridx gridy mine_present = Inr (True, g)"
  by (simp add: alter_minefield_def)

theorem alter_minefield_noop_witness:
  "mine (cell_at row4 1 0) = True \<and>
   alter_minefield lib_infeasible unif_one row4 1 0 True = Inr (True, row4)"
  using alter_minefield_noop [of row4 1 0 True lib_infeasible unif_one]
  by (simp add: row4_def cell_at_def idx_def virgin_def)

text \<open>
  C10. On a revealed cell whose mine status differs from the request the call changes
  nothing and reports success exactly when the request was for no mine: placing a mine
  in a revealed cell fails, clearing one succeeds without any mutation.
\<close>

theorem alter_minefield_visible:
  "mine (cell_at g gridx gridy) \<noteq> mine_present \<Longrightarrow> visible (cell_at g gridx gridy) \<Longrightarrow>
   alter_minefield lib unif g gridx gridy mine_present = Inr (\<not> mine_present, g)"
  by (auto simp add: alter_minefield_def)

theorem alter_minefield_visible_witness:
  "mine (cell_at row4 0 0) \<noteq> True \<and> visible (cell_at row4 0 0) \<and>
   alter_minefield lib_infeasible unif_one row4 0 0 True = Inr (\<not> True, row4)"
  using alter_minefield_visible [of row4 0 0 True lib_infeasible unif_one]
  by (simp add: row4_def cell_at_def idx_def virgin_def)

section \<open>Failure leaves the grid as found\<close>

lemma commit_reports_success:
  "commit unif g gridx gridy mine_present deep ran_lp solution n sh_mines T dh = Inr (ok, g') \<Longrightarrow> ok"
  by (auto simp add: commit_def Let_def split: sum.splits prod.splits)

lemma alter_search_failure:
  "alter_search lib unif g gridx gridy mine_present T0 = Inr (False, g') \<Longrightarrow> g' = g"
  by (auto simp add: alter_search_def Let_def split: if_splits dest: commit_reports_success)

text \<open>
  C1. Whenever \<^verbatim>\<open>alter_minefield\<close> returns failure, whichever of its failure paths was
  taken (no mines, a full grid, a revealed cell, no LP model, an infeasible program, a
  time-out or any other solver outcome), the session state it returns is the state it
  was given.
\<close>

theorem alter_minefield_failure_unmodified:
  "alter_minefield lib unif g gridx gridy mine_present = Inr (False, g') \<Longrightarrow> g' = g"
  by (auto simp add: alter_minefield_def Let_def split: if_splits dest: alter_search_failure)

theorem alter_minefield_failure_unmodified_witness:
  "alter_minefield lib_infeasible unif_one row4 3 0 True = Inr (False, row4)"
proof -
  have h: "alter_minefield lib_infeasible unif_one row4 3 0 True
             = Inr (False, snd (projr (alter_minefield lib_infeasible unif_one row4 3 0 True)))"
    by code_simp
  show ?thesis
    using h alter_minefield_failure_unmodified [OF h] by simp
qed


section \<open>Geometry of the grid\<close>

lemma fold_count:
  "fold (\<lambda>(i, j) count. if P i j then count + 1 else count) xs (c :: int)
     = c + int (length (filter (\<lambda>(i, j). P i j) xs))"
  by (induction xs arbitrary: c) auto

lemma distinct_concat_map:
  "distinct ys \<Longrightarrow> (\<And>y. y \<in> set ys \<Longrightarrow> distinct (f y)) \<Longrightarrow>
   (\<And>y y'. y \<in> set ys \<Longrightarrow> y' \<in> set ys \<Longrightarrow> y \<noteq> y' \<Longrightarrow> set (f y) \<inter> set (f y') = {}) \<Longrightarrow>
   distinct (concat (map f ys))"
proof (induction ys)
  case Nil
  then show ?case by simp
next
  case (Cons a ys)
  have "set (f a) \<inter> set (f y) = {}" if "y \<in> set ys" for y
    using Cons.prems(1) Cons.prems(3) [of a y] that by auto
  then show ?case using Cons by auto
qed

lemma set_nbrs:
  "set (nbrs g x y) = {(i, j). in_grid g i j \<and> cells_are_adjacent x y i j}"
  by (auto simp add: nbrs_def in_grid_def cells_are_adjacent_def split: if_splits)

lemma distinct_nbrs: "distinct (nbrs g x y)"
  unfolding nbrs_def
  by (intro distinct_concat_map) (auto split: if_splits)

lemma set_cells: "set (cells g) = {(x, y). in_grid g x y}"
  by (auto simp add: cells_def in_grid_def)

lemma distinct_cells: "distinct (cells g)"
  unfolding cells_def
  by (intro distinct_concat_map) (auto simp add: distinct_map inj_on_def)

lemma idx_inj:
  assumes "in_grid g x y" "in_grid g i j"
  shows "idx g x y = idx g i j \<longleftrightarrow> x = i \<and> y = j"
proof
  assume e: "idx g x y = idx g i j"
  let ?w = "grid_width g"
  have w: "0 < ?w" using assms by (simp add: in_grid_def)
  have nn: "0 \<le> ?w * y + x" "0 \<le> ?w * j + i" using assms by (simp_all add: in_grid_def)
  from e nn have eq: "?w * y + x = ?w * j + i" by (simp add: idx_def)
  have "(?w * y + x) div ?w = y" "(?w * j + i) div ?w = j"
    using assms w by (simp_all add: in_grid_def)
  with eq have "y = j" by simp
  with eq show "x = i \<and> y = j" by simp
qed simp

lemma idx_less:
  assumes "grid_ok g" "in_grid g x y"
  shows "idx g x y < length (minefield g)"
proof -
  let ?w = "grid_width g" and ?h = "grid_height g"
  have "?w * y + x < ?w * y + ?w" using assms by (simp add: in_grid_def)
  also have "\<dots> = ?w * (y + 1)" by (simp add: algebra_simps)
  also have "\<dots> \<le> ?w * ?h" using assms by (intro mult_left_mono) (simp_all add: in_grid_def)
  finally show ?thesis using assms by (simp add: idx_def grid_ok_def in_grid_def)
qed


lemma upd_cell_dims [simp]:
  "grid_width (upd_cell g i j f) = grid_width g"
  "grid_height (upd_cell g i j f) = grid_height g"
  "length (minefield (upd_cell g i j f)) = length (minefield g)"
  "visible_cell_count (upd_cell g i j f) = visible_cell_count g"
  "status (upd_cell g i j f) = status g"
  by (simp_all add: upd_cell_def)

lemma upd_cell_geometry [simp]:
  "grid_ok (upd_cell g i j f) = grid_ok g"
  "in_grid (upd_cell g i j f) = in_grid g"
  "nbrs (upd_cell g i j f) = nbrs g"
  "cells (upd_cell g i j f) = cells g"
  "idx (upd_cell g i j f) = idx g"
  by (simp_all add: grid_ok_def in_grid_def nbrs_def cells_def idx_def fun_eq_iff)

lemma cell_at_upd_cell:
  "grid_ok g \<Longrightarrow> in_grid g i j \<Longrightarrow> in_grid g x y \<Longrightarrow>
   cell_at (upd_cell g i j f) x y = (if x = i \<and> y = j then f (cell_at g x y) else cell_at g x y)"
  using idx_inj [of g x y i j] idx_less [of g i j]
  by (auto simp add: cell_at_def upd_cell_def idx_def)

lemma nbrs_in_grid: "(i, j) \<in> set (nbrs g x y) \<Longrightarrow> in_grid g i j"
  by (simp add: set_nbrs)

lemma fold_upd_dims:
  "grid_width (fold (\<lambda>(i, j) s. upd_cell s i j (f i j s)) cs g) = grid_width g
   \<and> grid_height (fold (\<lambda>(i, j) s. upd_cell s i j (f i j s)) cs g) = grid_height g
   \<and> length (minefield (fold (\<lambda>(i, j) s. upd_cell s i j (f i j s)) cs g)) = length (minefield g)
   \<and> visible_cell_count (fold (\<lambda>(i, j) s. upd_cell s i j (f i j s)) cs g) = visible_cell_count g
   \<and> status (fold (\<lambda>(i, j) s. upd_cell s i j (f i j s)) cs g) = status g"
  by (induction cs arbitrary: g) (auto)

lemma cell_at_fold_upd:
  assumes "grid_ok g" "distinct cs" "\<forall>(i, j) \<in> set cs. in_grid g i j" "in_grid g x y"
  shows "cell_at (fold (\<lambda>(i, j) s. upd_cell s i j f) cs g) x y
           = (if (x, y) \<in> set cs then f (cell_at g x y) else cell_at g x y)"
  using assms
proof (induction cs arbitrary: g)
  case Nil
  then show ?case by simp
next
  case (Cons c cs)
  obtain i j where c: "c = (i, j)" by (cases c)
  have ij: "in_grid g i j" using Cons.prems c by simp
  have "cell_at (fold (\<lambda>(i, j) s. upd_cell s i j f) cs (upd_cell g i j f)) x y
          = (if (x, y) \<in> set cs then f (cell_at (upd_cell g i j f) x y)
             else cell_at (upd_cell g i j f) x y)"
    using Cons.prems by (intro Cons.IH) (auto)
  then show ?case using Cons.prems c ij by (auto simp add: cell_at_upd_cell)
qed

lemma count_adjacent_mines_card:
  "count_adjacent_mines g x y = int (card (mine_neighbours g x y))"
proof -
  let ?ms = "filter (\<lambda>(i, j). mine (cell_at g i j)) (nbrs g x y)"
  have "mine_neighbours g x y = set ?ms"
    by (auto simp add: mine_neighbours_def set_nbrs)
  moreover have "card (set ?ms) = length ?ms"
    by (intro distinct_card) (simp add: distinct_nbrs)
  ultimately have "card (mine_neighbours g x y) = length ?ms" by (simp only:)
  then show ?thesis
    by (simp add: count_adjacent_mines_def fold_count)
qed

lemma mine_neighbours_window:
  "mine_neighbours g x y \<subseteq> {x - 1 .. x + 1} \<times> {y - 1 .. y + 1}"
  by (auto simp add: mine_neighbours_def cells_are_adjacent_def)

lemma card_mine_neighbours: "card (mine_neighbours g x y) \<le> 9"
proof -
  have "card (mine_neighbours g x y) \<le> card ({x - 1 .. x + 1} \<times> {y - 1 .. y + 1})"
    by (intro card_mono mine_neighbours_window) simp
  then show ?thesis by (simp add: card_cartesian_product)
qed

lemma finite_mine_neighbours [simp]: "finite (mine_neighbours g x y)"
  by (rule finite_subset [OF mine_neighbours_window]) simp


lemma cells_are_adjacent_sym: "cells_are_adjacent x y i j = cells_are_adjacent i j x y"
  by (simp add: cells_are_adjacent_def abs_minus_commute)

lemma cells_are_adjacent_irrefl [simp]: "\<not> cells_are_adjacent x y x y"
  by (simp add: cells_are_adjacent_def)

lemma uint_adj_plus_one: "uint a \<le> 9 \<Longrightarrow> uint (a + 1 :: 8 word) = uint a + 1"
  by (simp add: uint_word_ariths)

lemma uint_adj_minus_one: "1 \<le> uint a \<Longrightarrow> uint (a - 1 :: 8 word) = uint a - 1"
  using uint_lt2p [of a] by (simp add: uint_word_ariths)

lemma spawn_mine_cell:
  assumes "grid_ok g" "in_grid g x y" "\<not> mine (cell_at g x y)" "in_grid g i j"
  shows "cell_at (snd (spawn_mine g x y)) i j =
           (if cells_are_adjacent x y i j then (cell_at g i j)\<lparr>adj := adj (cell_at g i j) + 1\<rparr>
            else if i = x \<and> j = y then (cell_at g i j)\<lparr>mine := True\<rparr>
            else cell_at g i j)"
proof -
  let ?g1 = "upd_cell g x y (\<lambda>c. c\<lparr>mine := True\<rparr>)"
  have "cell_at (fold (\<lambda>(i, j) s. upd_cell s i j (\<lambda>c. c\<lparr>adj := adj c + 1\<rparr>)) (nbrs g x y) ?g1) i j
          = (if (i, j) \<in> set (nbrs g x y) then (cell_at ?g1 i j)\<lparr>adj := adj (cell_at ?g1 i j) + 1\<rparr>
             else cell_at ?g1 i j)"
    using assms by (intro cell_at_fold_upd) (auto simp add: distinct_nbrs set_nbrs)
  then show ?thesis
    using assms by (auto simp add: spawn_mine_def cell_at_upd_cell set_nbrs)
qed

lemma spawn_mine_dims:
  "grid_width (snd (spawn_mine g x y)) = grid_width g
   \<and> grid_height (snd (spawn_mine g x y)) = grid_height g
   \<and> length (minefield (snd (spawn_mine g x y))) = length (minefield g)"
  using fold_upd_dims [of "\<lambda>i j s c. c\<lparr>adj := adj c + 1\<rparr>" "nbrs g x y"
                          "upd_cell g x y (\<lambda>c. c\<lparr>mine := True\<rparr>)"]
  by (simp add: spawn_mine_def)

lemma spawn_mine_geometry:
  "grid_ok (snd (spawn_mine g x y)) = grid_ok g"
  "in_grid (snd (spawn_mine g x y)) = in_grid g"
  using spawn_mine_dims [of g x y] by (simp_all add: grid_ok_def in_grid_def fun_eq_iff)

lemma spawn_mine_adjacency:
  assumes ok: "grid_ok g" and xy: "in_grid g x y" and inv: "adjacency_invariant g"
  shows "adjacency_invariant (snd (spawn_mine g x y))"
proof (cases "mine (cell_at g x y)")
  case True
  then show ?thesis using inv by (simp add: spawn_mine_def)
next
  case False
  let ?g' = "snd (spawn_mine g x y)"
  have cell: "in_grid g i j \<Longrightarrow> cell_at ?g' i j =
           (if cells_are_adjacent x y i j then (cell_at g i j)\<lparr>adj := adj (cell_at g i j) + 1\<rparr>
            else if i = x \<and> j = y then (cell_at g i j)\<lparr>mine := True\<rparr>
            else cell_at g i j)" for i j
    using spawn_mine_cell [OF ok xy False] by simp
  show ?thesis
    unfolding adjacency_invariant_def
  proof (intro allI impI)
    fix i j assume "in_grid ?g' i j"
    then have ij: "in_grid g i j" by (simp add: spawn_mine_geometry)
    have old: "uint (adj (cell_at g i j)) = int (card (mine_neighbours g i j))"
      using inv ij by (simp add: adjacency_invariant_def)
    have nb: "mine_neighbours ?g' i j =
                (if cells_are_adjacent x y i j then insert (x, y) (mine_neighbours g i j)
                 else mine_neighbours g i j)"
      using xy by (auto simp add: mine_neighbours_def spawn_mine_geometry cell
                                  cells_are_adjacent_sym split: if_splits)
    have notin: "(x, y) \<notin> mine_neighbours g i j"
      using False by (simp add: mine_neighbours_def)
    show "uint (adj (cell_at ?g' i j)) = int (card (mine_neighbours ?g' i j))"
    proof (cases "cells_are_adjacent x y i j")
      case True
      have "uint (adj (cell_at g i j)) \<le> 9"
        using old card_mine_neighbours [of g i j] by simp
      then show ?thesis using True old notin
        by (simp add: cell ij nb uint_adj_plus_one)
    next
      case False
      then show ?thesis using old by (auto simp add: cell ij nb)
    qed
  qed
qed


section \<open>What revealing leaves alone\<close>

lemma uint_adj_of_int: "0 \<le> n \<Longrightarrow> n \<le> 9 \<Longrightarrow> uint (word_of_int n :: 8 word) = n"
  by (simp add: uint_word_of_int)

lemma fold_option_None [simp]:
  "fold (\<lambda>(i, j) r. case r of None \<Rightarrow> None | Some s \<Rightarrow> step i j s) cs None = None"
  by (induction cs) auto

lemma fold_option_induct:
  assumes "fold (\<lambda>(i, j) r. case r of None \<Rightarrow> None | Some s \<Rightarrow> step i j s) cs (Some g) = Some g'"
    and "P g"
    and "\<And>i j s s'. (i, j) \<in> set cs \<Longrightarrow> P s \<Longrightarrow> step i j s = Some s' \<Longrightarrow> P s'"
  shows "P g'"
  using assms
proof (induction cs arbitrary: g)
  case Nil
  then show ?case by simp
next
  case (Cons c cs)
  obtain i j where c: "c = (i, j)" by (cases c)
  show ?case
  proof (cases "step i j g")
    case None
    then show ?thesis using Cons.prems(1) c by simp
  next
    case (Some s)
    have "P s" using Cons.prems(2) Cons.prems(3) [of i j g s] Some c by simp
    moreover have "fold (\<lambda>(i, j) r. case r of None \<Rightarrow> None | Some s \<Rightarrow> step i j s) cs (Some s) = Some g'"
      using Cons.prems(1) c Some by simp
    ultimately show ?thesis using Cons.IH [of s] Cons.prems(3) by auto
  qed
qed

lemma same_layout_refl [simp]: "same_layout g g"
  by (simp add: same_layout_def)

lemma same_layout_trans: "same_layout g g' \<Longrightarrow> same_layout g' g'' \<Longrightarrow> same_layout g g''"
  by (simp add: same_layout_def)

lemma nth_list_update_if: "k < length xs \<Longrightarrow> xs[i := v] ! k = (if k = i then v else xs ! k)"
  by auto

lemma same_layout_upd_cell:
  assumes "\<And>c. mine (f c) = mine c" "\<And>c. adj (f c) = adj c"
  shows "same_layout g (upd_cell g x y f)"
  using assms by (simp add: same_layout_def upd_cell_def nth_list_update_if)

lemma same_layout_count [simp]: "same_layout g (g\<lparr>visible_cell_count := n\<rparr>)"
  by (simp add: same_layout_def)

lemma same_layout_status [simp]: "same_layout g (g\<lparr>status := st\<rparr>)"
  by (simp add: same_layout_def)

lemma bucket_reveal_layout:
  "bucket_reveal fuel g x y = Some g' \<Longrightarrow> same_layout g g'"
proof (induction fuel arbitrary: g x y g')
  case 0
  then show ?case by simp
next
  case (Suc fuel)
  define g1 where "g1 = (if \<not> visible (cell_at g x y)
                then (upd_cell g x y (\<lambda>c. c\<lparr>visible := True\<rparr>))
                       \<lparr>visible_cell_count := visible_cell_count g + 1\<rparr>
                else g)"
  define g3 where "g3 = upd_cell (upd_cell g1 x y (\<lambda>c. c\<lparr>flag := False\<rparr>)) x y (\<lambda>c. c\<lparr>qmark := False\<rparr>)"
  have "same_layout g g1"
    unfolding g1_def
    by (auto intro!: same_layout_trans [OF same_layout_upd_cell same_layout_count])
  then have "same_layout g (upd_cell g1 x y (\<lambda>c. c\<lparr>flag := False\<rparr>))"
    by (rule same_layout_trans) (simp_all add: same_layout_upd_cell)
  then have g3: "same_layout g g3"
    unfolding g3_def
    by (rule same_layout_trans) (simp_all add: same_layout_upd_cell)
  show ?case
  proof (cases "adj (cell_at g3 x y) = 0")
    case False
    then have "g' = g3" using Suc.prems by (simp add: g1_def g3_def Let_def)
    then show ?thesis using g3 by simp
  next
    case True
    then have f: "fold (\<lambda>(i, j) r. case r of None \<Rightarrow> None
                       | Some s \<Rightarrow> if \<not> visible (cell_at s i j) then bucket_reveal fuel s i j
                                   else Some s)
                   (nbrs g3 x y) (Some g3) = Some g'"
      using Suc.prems by (simp add: g1_def g3_def Let_def)
    show ?thesis
    proof (rule fold_option_induct [OF f, where P = "same_layout g"])
      show "same_layout g g3" by (rule g3)
    next
      fix i j s s'
      assume "same_layout g s"
        and "(if \<not> visible (cell_at s i j) then bucket_reveal fuel s i j else Some s) = Some s'"
      then show "same_layout g s'"
        using Suc.IH [of s i j s'] by (auto split: if_splits elim: same_layout_trans)
    qed
  qed
qed


section \<open>The adjacency invariant\<close>

lemma same_layout_geometry:
  assumes "same_layout g g'"
  shows "grid_ok g' = grid_ok g" "in_grid g' = in_grid g" "idx g' = idx g"
  using assms by (simp_all add: same_layout_def grid_ok_def in_grid_def idx_def fun_eq_iff)

lemma same_layout_cell:
  assumes "same_layout g g'" "grid_ok g" "in_grid g x y"
  shows "mine (cell_at g' x y) = mine (cell_at g x y)" "adj (cell_at g' x y) = adj (cell_at g x y)"
  using assms idx_less [of g x y] same_layout_geometry(3) [of g g']
  by (simp_all add: cell_at_def same_layout_def)

lemma same_layout_mine_neighbours:
  assumes "same_layout g g'" "grid_ok g"
  shows "mine_neighbours g' x y = mine_neighbours g x y"
  using assms by (auto simp add: mine_neighbours_def same_layout_geometry same_layout_cell)

lemma same_layout_adjacency:
  assumes "same_layout g g'" "grid_ok g" "adjacency_invariant g"
  shows "adjacency_invariant g'"
  using assms
  by (simp add: adjacency_invariant_def same_layout_geometry same_layout_cell
                same_layout_mine_neighbours)

lemma remove_mine_first_phase:
  assumes "grid_ok g" "in_grid g x y" "in_grid g i j"
  shows "cell_at (fold (\<lambda>(i, j) s. upd_cell s i j (\<lambda>c. c\<lparr>adj := adj c - 1\<rparr>)) (nbrs g x y)
                       (upd_cell g x y (\<lambda>c. c\<lparr>mine := False\<rparr>))) i j =
           (if cells_are_adjacent x y i j then (cell_at g i j)\<lparr>adj := adj (cell_at g i j) - 1\<rparr>
            else if i = x \<and> j = y then (cell_at g i j)\<lparr>mine := False\<rparr>
            else cell_at g i j)"
proof -
  let ?g1 = "upd_cell g x y (\<lambda>c. c\<lparr>mine := False\<rparr>)"
  have "cell_at (fold (\<lambda>(i, j) s. upd_cell s i j (\<lambda>c. c\<lparr>adj := adj c - 1\<rparr>)) (nbrs g x y) ?g1) i j
          = (if (i, j) \<in> set (nbrs g x y) then (cell_at ?g1 i j)\<lparr>adj := adj (cell_at ?g1 i j) - 1\<rparr>
             else cell_at ?g1 i j)"
    using assms by (intro cell_at_fold_upd) (auto simp add: distinct_nbrs set_nbrs)
  then show ?thesis
    using assms by (auto simp add: cell_at_upd_cell set_nbrs)
qed

lemma remove_mine_first_phase_adjacency:
  assumes ok: "grid_ok g" and xy: "in_grid g x y" and inv: "adjacency_invariant g"
    and m: "mine (cell_at g x y)"
  defines "g2 \<equiv> fold (\<lambda>(i, j) s. upd_cell s i j (\<lambda>c. c\<lparr>adj := adj c - 1\<rparr>)) (nbrs g x y)
                       (upd_cell g x y (\<lambda>c. c\<lparr>mine := False\<rparr>))"
  shows "grid_ok g2 \<and> in_grid g2 = in_grid g \<and> adjacency_invariant g2"
proof -
  have dims: "grid_width g2 = grid_width g \<and> grid_height g2 = grid_height g
              \<and> length (minefield g2) = length (minefield g)"
    unfolding g2_def
    using fold_upd_dims [of "\<lambda>i j s c. c\<lparr>adj := adj c - 1\<rparr>" "nbrs g x y"
                            "upd_cell g x y (\<lambda>c. c\<lparr>mine := False\<rparr>)"]
    by simp
  then have geo: "grid_ok g2" "in_grid g2 = in_grid g"
    using ok by (simp_all add: grid_ok_def in_grid_def fun_eq_iff)
  have cell: "in_grid g i j \<Longrightarrow> cell_at g2 i j =
           (if cells_are_adjacent x y i j then (cell_at g i j)\<lparr>adj := adj (cell_at g i j) - 1\<rparr>
            else if i = x \<and> j = y then (cell_at g i j)\<lparr>mine := False\<rparr>
            else cell_at g i j)" for i j
    unfolding g2_def using remove_mine_first_phase [OF ok xy] by simp
  have "adjacency_invariant g2"
    unfolding adjacency_invariant_def
  proof (intro allI impI)
    fix i j assume "in_grid g2 i j"
    then have ij: "in_grid g i j" by (simp add: geo)
    have old: "uint (adj (cell_at g i j)) = int (card (mine_neighbours g i j))"
      using inv ij by (simp add: adjacency_invariant_def)
    have nb: "mine_neighbours g2 i j =
                (if cells_are_adjacent x y i j then mine_neighbours g i j - {(x, y)}
                 else mine_neighbours g i j)"
      using xy by (auto simp add: mine_neighbours_def geo cell
                                  cells_are_adjacent_sym split: if_splits)
    show "uint (adj (cell_at g2 i j)) = int (card (mine_neighbours g2 i j))"
    proof (cases "cells_are_adjacent x y i j")
      case True
      then have isin: "(x, y) \<in> mine_neighbours g i j"
        using xy m by (simp add: mine_neighbours_def cells_are_adjacent_sym)
      then have "1 \<le> card (mine_neighbours g i j)"
        by (metis One_nat_def Suc_leI card_gt_0_iff empty_iff finite_mine_neighbours)
      then show ?thesis using True old isin
        by (simp add: cell ij nb uint_adj_minus_one)
    next
      case False
      then show ?thesis using old by (auto simp add: cell ij nb)
    qed
  qed
  then show ?thesis using geo by simp
qed

lemma remove_mine_adjacency:
  assumes ok: "grid_ok g" and xy: "in_grid g x y" and inv: "adjacency_invariant g"
    and r: "remove_mine fuel g x y = Some (b, g')"
  shows "grid_ok g' \<and> adjacency_invariant g'"
proof (cases "mine (cell_at g x y)")
  case False
  then show ?thesis using r ok inv by (simp add: remove_mine_def)
next
  case True
  define g2 where "g2 = fold (\<lambda>(i, j) s. upd_cell s i j (\<lambda>c. c\<lparr>adj := adj c - 1\<rparr>)) (nbrs g x y)
                       (upd_cell g x y (\<lambda>c. c\<lparr>mine := False\<rparr>))"
  have g2: "grid_ok g2 \<and> in_grid g2 = in_grid g \<and> adjacency_invariant g2"
    unfolding g2_def by (rule remove_mine_first_phase_adjacency [OF ok xy inv True])
  from r True have f: "fold (\<lambda>(i, j) r. case r of None \<Rightarrow> None
                      | Some s \<Rightarrow> if visible (cell_at s i j) then bucket_reveal fuel s i j
                                  else Some s)
                   (nbrs g2 x y) (Some g2) = Some g'"
    by (auto simp add: remove_mine_def Let_def g2_def)
  have "same_layout g2 g'"
  proof (rule fold_option_induct [OF f, where P = "same_layout g2"])
    show "same_layout g2 g2" by simp
  next
    fix i j s s'
    assume "same_layout g2 s"
      and "(if visible (cell_at s i j) then bucket_reveal fuel s i j else Some s) = Some s'"
    then show "same_layout g2 s'"
      by (auto split: if_splits dest: bucket_reveal_layout elim: same_layout_trans)
  qed
  then show ?thesis
    using g2 by (simp add: same_layout_geometry same_layout_adjacency)
qed

lemma fold_invariant:
  assumes "P g" and "\<And>c s. c \<in> set cs \<Longrightarrow> P s \<Longrightarrow> P (f c s)"
  shows "P (fold f cs g)"
  using assms by (induction cs arbitrary: g) auto

lemma count_adjacent_mines_bounds:
  "0 \<le> count_adjacent_mines g x y" "count_adjacent_mines g x y \<le> 9"
  using card_mine_neighbours [of g x y] by (simp_all add: count_adjacent_mines_card)

lemma uint_adj_of_nat: "n \<le> 9 \<Longrightarrow> uint (word_of_nat n :: 8 word) = int n"
  using uint_adj_of_int [of "int n"] by simp

lemma recompute_step_layout:
  fixes g :: game
  defines "F \<equiv> (\<lambda>(x, y) s. upd_cell s x y
                     (\<lambda>c. c\<lparr>adj := word_of_int (count_adjacent_mines s x y)\<rparr>))"
  assumes "grid_ok g" "distinct cs" "\<forall>(i, j) \<in> set cs. in_grid g i j"
  shows "grid_ok (fold F cs g) \<and> in_grid (fold F cs g) = in_grid g
         \<and> (\<forall>i j. in_grid g i j \<longrightarrow>
               mine (cell_at (fold F cs g) i j) = mine (cell_at g i j)
               \<and> adj (cell_at (fold F cs g) i j) =
                   (if (i, j) \<in> set cs then word_of_int (count_adjacent_mines g i j)
                    else adj (cell_at g i j)))"
  using assms(2-4)
proof (induction cs arbitrary: g)
  case Nil
  then show ?case by simp
next
  case (Cons c cs)
  obtain x y where c: "c = (x, y)" by (cases c)
  define g1 where "g1 = upd_cell g x y (\<lambda>c. c\<lparr>adj := word_of_int (count_adjacent_mines g x y)\<rparr>)"
  have step: "fold F (c # cs) g = fold F cs g1"
    by (simp add: c F_def g1_def)
  have xy: "in_grid g x y" and notin: "(x, y) \<notin> set cs" using Cons.prems c by auto
  have geo1: "grid_ok g1" "in_grid g1 = in_grid g"
    using Cons.prems by (simp_all add: g1_def)
  have mines1: "in_grid g i j \<Longrightarrow> mine (cell_at g1 i j) = mine (cell_at g i j)" for i j
    using Cons.prems xy by (simp add: g1_def cell_at_upd_cell)
  have adj1: "in_grid g i j \<Longrightarrow> adj (cell_at g1 i j) =
                (if i = x \<and> j = y then word_of_int (count_adjacent_mines g x y)
                 else adj (cell_at g i j))" for i j
    using Cons.prems xy by (simp add: g1_def cell_at_upd_cell)
  have nb: "mine_neighbours g1 i j = mine_neighbours g i j" for i j
    using mines1 by (auto simp add: mine_neighbours_def geo1)
  have cnt: "count_adjacent_mines g1 i j = count_adjacent_mines g i j" for i j
    by (simp add: count_adjacent_mines_card nb)
  have IH: "grid_ok (fold F cs g1) \<and> in_grid (fold F cs g1) = in_grid g1
        \<and> (\<forall>i j. in_grid g1 i j \<longrightarrow>
               mine (cell_at (fold F cs g1) i j) = mine (cell_at g1 i j)
               \<and> adj (cell_at (fold F cs g1) i j) =
                   (if (i, j) \<in> set cs then word_of_int (count_adjacent_mines g1 i j)
                    else adj (cell_at g1 i j)))"
    using Cons.prems geo1 by (intro Cons.IH) auto
  show ?case
    unfolding step
  proof (intro conjI allI impI)
    show "grid_ok (fold F cs g1)" using IH by simp
    show "in_grid (fold F cs g1) = in_grid g" using IH geo1 by simp
  next
    fix i j assume ij: "in_grid g i j"
    then show "mine (cell_at (fold F cs g1) i j) = mine (cell_at g i j)"
      using IH geo1 mines1 by simp
    show "adj (cell_at (fold F cs g1) i j) =
            (if (i, j) \<in> set (c # cs) then word_of_int (count_adjacent_mines g i j)
             else adj (cell_at g i j))"
      using IH geo1 ij notin by (auto simp add: c cnt adj1)
  qed
qed

lemma recompute_minefield_adj_layout:
  assumes "grid_ok g"
  shows "grid_ok (recompute_minefield_adj g)"
    and "in_grid (recompute_minefield_adj g) = in_grid g"
    and "in_grid g i j \<Longrightarrow>
           mine (cell_at (recompute_minefield_adj g) i j) = mine (cell_at g i j)"
    and "in_grid g i j \<Longrightarrow>
           adj (cell_at (recompute_minefield_adj g) i j) = word_of_int (count_adjacent_mines g i j)"
  using recompute_step_layout [OF assms distinct_cells [of g]]
  by (auto simp add: recompute_minefield_adj_def set_cells)

lemma recompute_minefield_adj_adjacency:
  assumes "grid_ok g"
  shows "adjacency_invariant (recompute_minefield_adj g)"
proof -
  have "mine_neighbours (recompute_minefield_adj g) i j = mine_neighbours g i j" for i j
    by (auto simp add: mine_neighbours_def recompute_minefield_adj_layout [OF assms])
  then show ?thesis
    by (simp add: adjacency_invariant_def recompute_minefield_adj_layout [OF assms]
                  uint_adj_of_nat count_adjacent_mines_card card_mine_neighbours)
qed

lemma fold_sum_Inl:
  assumes "\<And>c e. f c (Inl e) = Inl e"
  shows "fold f cs (Inl e) = Inl e"
  using assms by (induction cs) auto

lemma fold_sum_induct:
  assumes "fold f cs (Inr a) = Inr b" and "P a"
    and "\<And>c e. f c (Inl e) = Inl e"
    and "\<And>c s s'. c \<in> set cs \<Longrightarrow> P s \<Longrightarrow> f c (Inr s) = Inr s' \<Longrightarrow> P s'"
  shows "P b"
  using assms(1,2,4)
proof (induction cs arbitrary: a)
  case Nil
  then show ?case by simp
next
  case (Cons c cs)
  show ?case
  proof (cases "f c (Inr a)")
    case (Inl e)
    then show ?thesis using Cons.prems(1) fold_sum_Inl [of f cs, OF assms(3)] by simp
  next
    case (Inr s)
    have "P s" using Cons.prems(2) Cons.prems(3) [of c a s] Inr by simp
    moreover have "fold f cs (Inr s) = Inr b" using Cons.prems(1) Inr by simp
    ultimately show ?thesis using Cons.IH [of s] Cons.prems(3) by auto
  qed
qed

lemma write_cell_Inl [simp]:
  "write_cell gridx gridy ran_lp solution dh_mines dh c (Inl e) = Inl e"
  by (cases c) (simp add: write_cell_def)

lemma write_cell_dims:
  assumes "write_cell gridx gridy ran_lp solution dh_mines dh c (Inr (s, a, b)) = Inr (s', a', b')"
  shows "grid_width s' = grid_width s \<and> grid_height s' = grid_height s
         \<and> length (minefield s') = length (minefield s)"
  using assms by (cases c) (auto simp add: write_cell_def split: if_splits)

lemma commit_adjacency:
  assumes ok: "grid_ok g"
    and c: "commit unif g gridx gridy mine_present deep ran_lp solution n sh_mines T dh = Inr (b, g')"
  shows "grid_ok g' \<and> adjacency_invariant g'"
proof -
  obtain dh_mines g1 sh_j dh_j where
    f: "fold (write_cell gridx gridy ran_lp solution dh_mines dh) (cells g) (Inr (g, 0, 0))
          = Inr (g1, sh_j, dh_j)"
    and g': "g' = recompute_minefield_adj
                    (if deep then upd_cell g1 gridx gridy (\<lambda>c. c\<lparr>mine := mine_present\<rparr>) else g1)"
    using c by (auto simp add: commit_def Let_def split: sum.splits prod.splits)
  have "grid_ok (fst (g1, sh_j, dh_j))"
  proof (rule fold_sum_induct [OF f, where P = "\<lambda>t. grid_ok (fst t)"])
    show "grid_ok (fst (g, 0::int, 0::int))" using ok by simp
  next
    fix c e show "write_cell gridx gridy ran_lp solution dh_mines dh c (Inl e) = Inl e" by simp
  next
    fix c s s'
    assume "grid_ok (fst s)"
      and "write_cell gridx gridy ran_lp solution dh_mines dh c (Inr s) = Inr s'"
    then show "grid_ok (fst s')"
      using write_cell_dims [of gridx gridy ran_lp solution dh_mines dh c "fst s" "fst (snd s)"
                                "snd (snd s)" "fst s'" "fst (snd s')" "snd (snd s')"]
      by (simp add: grid_ok_def)
  qed
  then have "grid_ok (if deep then upd_cell g1 gridx gridy (\<lambda>c. c\<lparr>mine := mine_present\<rparr>) else g1)"
    by simp
  then show ?thesis
    unfolding g'
    using recompute_minefield_adj_layout(1) recompute_minefield_adj_adjacency by blast
qed

lemma alter_search_adjacency:
  assumes "grid_ok g" "adjacency_invariant g"
    and "alter_search lib unif g gridx gridy mine_present T0 = Inr (b, g')"
  shows "grid_ok g' \<and> adjacency_invariant g'"
  using assms
  by (auto simp add: alter_search_def Let_def split: if_splits dest: commit_adjacency)

lemma alter_minefield_adjacency:
  assumes "grid_ok g" "adjacency_invariant g"
    and "alter_minefield lib unif g gridx gridy mine_present = Inr (b, g')"
  shows "grid_ok g' \<and> adjacency_invariant g'"
  using assms
  by (auto simp add: alter_minefield_def Let_def split: if_splits dest: alter_search_adjacency)

lemma status_update_simps [simp]:
  "cell_at (g\<lparr>status := st\<rparr>) = cell_at g"
  "in_grid (g\<lparr>status := st\<rparr>) = in_grid g"
  "grid_ok (g\<lparr>status := st\<rparr>) = grid_ok g"
  "nbrs (g\<lparr>status := st\<rparr>) = nbrs g"
  "cells (g\<lparr>status := st\<rparr>) = cells g"
  "idx (g\<lparr>status := st\<rparr>) = idx g"
  by (simp_all add: cell_at_def in_grid_def grid_ok_def nbrs_def cells_def idx_def fun_eq_iff)

lemma count_update_simps [simp]:
  "cell_at (g\<lparr>visible_cell_count := n\<rparr>) = cell_at g"
  "in_grid (g\<lparr>visible_cell_count := n\<rparr>) = in_grid g"
  "grid_ok (g\<lparr>visible_cell_count := n\<rparr>) = grid_ok g"
  "nbrs (g\<lparr>visible_cell_count := n\<rparr>) = nbrs g"
  "cells (g\<lparr>visible_cell_count := n\<rparr>) = cells g"
  "idx (g\<lparr>visible_cell_count := n\<rparr>) = idx g"
  by (simp_all add: cell_at_def in_grid_def grid_ok_def nbrs_def cells_def idx_def fun_eq_iff)

lemma new_game_adjacency:
  assumes "0 \<le> w" "0 \<le> h"
  shows "grid_ok (new_game w h bernoulli) \<and> adjacency_invariant (new_game w h bernoulli)"
proof -
  define g0 where "g0 = \<lparr>grid_width = w, grid_height = h, minefield = replicate (nat (w * h)) virgin,
                visible_cell_count = 0, status = game_lost\<rparr>"
  have ok0: "grid_ok g0" using assms by (simp add: g0_def grid_ok_def)
  have cell0: "in_grid g0 x y \<Longrightarrow> cell_at g0 x y = virgin" for x y
    using idx_less [OF ok0, of x y] by (simp add: cell_at_def) (simp add: g0_def)
  have "mine_neighbours g0 x y = {}" for x y
    by (auto simp add: mine_neighbours_def cell0 virgin_def)
  then have inv0: "adjacency_invariant g0"
    by (simp add: adjacency_invariant_def cell0 virgin_def)
  define P where "P = (\<lambda>s. grid_ok s \<and> adjacency_invariant s \<and> in_grid s = in_grid g0)"
  have "P (fold (\<lambda>(x, y) s. if bernoulli x y then snd (spawn_mine s x y) else s) (cells g0) g0)"
  proof (rule fold_invariant)
    show "P g0" using ok0 inv0 by (simp add: P_def)
  next
    fix c s assume c: "c \<in> set (cells g0)" and s: "P s"
    obtain x y where xy: "c = (x, y)" by (cases c)
    then have "in_grid s x y" using c s by (simp add: set_cells P_def)
    then show "P ((\<lambda>(x, y) s. if bernoulli x y then snd (spawn_mine s x y) else s) c s)"
      using s by (simp add: xy P_def spawn_mine_geometry spawn_mine_adjacency)
  qed
  then show ?thesis
    by (simp add: new_game_def Let_def g0_def [symmetric] P_def adjacency_invariant_def
                  mine_neighbours_def)
qed

lemma reachable_grid_adjacency:
  "reachable g \<Longrightarrow> grid_ok g \<and> adjacency_invariant g"
proof (induction rule: reachable.induct)
  case (reach_new w h bernoulli)
  then show ?case by (rule new_game_adjacency)
next
  case (reach_spawn g x y)
  then show ?case by (simp add: spawn_mine_geometry spawn_mine_adjacency)
next
  case (reach_remove g x y fuel b g')
  then show ?case using remove_mine_adjacency by blast
next
  case (reach_reveal g x y fuel g')
  then show ?case
    using bucket_reveal_layout [of fuel g x y g']
    by (simp add: same_layout_geometry same_layout_adjacency)
next
  case (reach_alter g x y lib unif mine_present g')
  then show ?case using alter_minefield_adjacency by blast
qed

text \<open>
  C4. In every state reachable from \<^verbatim>\<open>new_game\<close> through \<^verbatim>\<open>spawn_mine\<close>,
  \<^verbatim>\<open>remove_mine\<close>, reveals and successful \<^verbatim>\<open>alter_minefield\<close> calls, the count
  stored in every cell of the grid equals the number of mines among the cell's in-bounds
  neighbours.
\<close>

theorem reachable_adjacency_invariant:
  "reachable g \<Longrightarrow> in_grid g x y \<Longrightarrow>
   uint (adj (cell_at g x y)) = int (card (mine_neighbours g x y))"
  using reachable_grid_adjacency [of g] by (simp add: adjacency_invariant_def)

theorem reachable_adjacency_invariant_witness:
  "reachable centre_mine \<and> in_grid centre_mine 0 0 \<and>
   uint (adj (cell_at centre_mine 0 0)) = int (card (mine_neighbours centre_mine 0 0))"
proof -
  have r: "reachable centre_mine"
    unfolding centre_mine_def by (rule reachable.reach_new) simp_all
  have i: "in_grid centre_mine 0 0"
    by code_simp
  show ?thesis
    using r i reachable_adjacency_invariant [OF r i] by simp
qed


section \<open>The sampler is uniform\<close>

lemma floyd_set_0 [simp]: "floyd_set n 0 u = {}"
  by (simp add: floyd_set_def)

lemma floyd_set_Suc:
  "floyd_set n (1 + int m) u = floyd_step u n (floyd_set (n - 1) (int m) u)"
proof -
  have "[n - (1 + int m) + 1 .. n] = [n - 1 - int m + 1 .. n - 1] @ [n]"
    using upto_rec2 [of "n - (1 + int m) + 1" n] by (simp add: algebra_simps)
  then show ?thesis by (simp add: floyd_set_def)
qed

lemma draws_ok_Suc:
  "draws_ok n (1 + int m) u \<longleftrightarrow> 1 \<le> u n \<and> u n \<le> n \<and> draws_ok (n - 1) (int m) u"
proof -
  have "{n - (1 + int m) + 1 .. n} = insert n {n - 1 - int m + 1 .. n - 1}"
    by auto
  then show ?thesis by (simp add: draws_ok_def)
qed

lemma floyd_set_props:
  "int m \<le> n \<Longrightarrow> draws_ok n (int m) u \<Longrightarrow>
   finite (floyd_set n (int m) u) \<and> floyd_set n (int m) u \<subseteq> {1 .. n}
   \<and> card (floyd_set n (int m) u) = m"
proof (induction m arbitrary: n)
  case 0
  then show ?case by simp
next
  case (Suc m)
  let ?S = "floyd_set (n - 1) (int m) u"
  have d: "1 \<le> u n" "u n \<le> n" "draws_ok (n - 1) (int m) u"
    using Suc.prems by (simp_all add: draws_ok_Suc)
  have IH: "finite ?S" "?S \<subseteq> {1 .. n - 1}" "card ?S = m"
    using Suc.IH [of "n - 1"] Suc.prems d by simp_all
  have "n \<notin> ?S" using IH(2) by auto
  then show ?case
    using IH d Suc.prems by (auto simp add: floyd_set_Suc floyd_step_def)
qed

lemma floyd_set_cong:
  "(\<And>j. j \<in> {n - k + 1 .. n} \<Longrightarrow> u j = v j) \<Longrightarrow> floyd_set n k u = floyd_set n k v"
  unfolding floyd_set_def
  by (rule fold_cong) (auto simp add: floyd_step_def fun_eq_iff)

lemma draw_space_0 [simp]: "draw_space n 0 = {\<lambda>j. undefined}"
  by (simp add: draw_space_def)

lemma draw_space_Suc:
  "draw_space n (1 + int m) = (\<lambda>(r, g). g(n := r)) ` ({1 .. n} \<times> draw_space (n - 1) (int m))"
proof -
  have "{n - (1 + int m) + 1 .. n} = insert n {n - 1 - int m + 1 .. n - 1}"
    by auto
  moreover have "Pi\<^sub>E {n - 1 - int m + 1 .. n - 1} (\<lambda>j. {1 .. j}) = draw_space (n - 1) (int m)"
    by (simp add: draw_space_def)
  ultimately show ?thesis
    by (simp add: draw_space_def PiE_insert_eq)
qed

lemma draw_space_inj:
  "inj_on (\<lambda>(r, g). g(n := r)) ({1 .. n} \<times> draw_space (n - 1) (int m))"
  unfolding draw_space_def
  using inj_combinator [of n "{n - 1 - int m + 1 .. n - 1}" "\<lambda>j. {1 .. j}"] by simp

lemma finite_draw_space [simp]: "finite (draw_space n k)"
  unfolding draw_space_def by (rule finite_PiE) simp_all

lemma draw_space_ok: "u \<in> draw_space n k \<Longrightarrow> draws_ok n k u"
  by (auto simp add: draw_space_def draws_ok_def PiE_iff)

lemma floyd_set_upd:
  "floyd_set (n - 1) (int m) (g(n := r)) = floyd_set (n - 1) (int m) g"
  by (rule floyd_set_cong) simp

lemma floyd_count:
  "int m \<le> n \<Longrightarrow> A \<subseteq> {1 .. n} \<Longrightarrow> card A = m \<Longrightarrow>
   card {u \<in> draw_space n (int m). floyd_set n (int m) u = A} = fact m"
proof (induction m arbitrary: n A)
  case 0
  then have "A = {}" by (metis card_0_eq finite_atLeastAtMost_int finite_subset)
  then show ?case by simp
next
  case (Suc m)
  let ?D = "draw_space (n - 1) (int m)"
  let ?F = "\<lambda>g. floyd_set (n - 1) (int m) g"
  have finA: "finite A" using Suc.prems(2) finite_subset by blast
  define pre where "pre r = A - {if n \<in> A then n else r}" for r
  have pre_ok: "pre r \<subseteq> {1 .. n - 1} \<and> card (pre r) = m" if "r \<in> A" for r
  proof -
    have "(if n \<in> A then n else r) \<in> A" using that by simp
    then have "card (pre r) = m" using Suc.prems(3) finA by (simp add: pre_def)
    moreover have "pre r \<subseteq> {1 .. n - 1}" using Suc.prems(2) by (auto simp add: pre_def)
    ultimately show ?thesis by simp
  qed
  have cnt: "card {g \<in> ?D. ?F g = pre r} = fact m" if "r \<in> A" for r
    using Suc.IH [of "n - 1" "pre r"] Suc.prems(1) pre_ok [OF that] by simp
  have sol: "{(r, g). r \<in> {1 .. n} \<and> g \<in> ?D \<and> floyd_step (g(n := r)) n (?F g) = A}
               = (SIGMA r : A. {g \<in> ?D. ?F g = pre r})"
  proof -
    have "floyd_step (g(n := r)) n (?F g) = A \<longleftrightarrow> r \<in> A \<and> ?F g = pre r"
      if g: "g \<in> ?D" and r: "r \<in> {1 .. n}" for g r
    proof -
      have S: "?F g \<subseteq> {1 .. n - 1}"
        using floyd_set_props [of m "n - 1" g] draw_space_ok [OF g] Suc.prems(1) by simp
      then have nS: "n \<notin> ?F g" by auto
      show ?thesis
        using nS S by (auto simp add: floyd_step_def pre_def)
    qed
    note key = this
    show ?thesis
    proof (intro equalityI subsetI)
      fix p assume "p \<in> {(r, g). r \<in> {1 .. n} \<and> g \<in> ?D \<and> floyd_step (g(n := r)) n (?F g) = A}"
      then obtain r g where p: "p = (r, g)" and r: "r \<in> {1 .. n}" and g: "g \<in> ?D"
        and e: "floyd_step (g(n := r)) n (?F g) = A" by auto
      from key [OF g r] e have "r \<in> A \<and> ?F g = pre r" by simp
      then show "p \<in> (SIGMA r : A. {g \<in> ?D. ?F g = pre r})" using p g by simp
    next
      fix p assume "p \<in> (SIGMA r : A. {g \<in> ?D. ?F g = pre r})"
      then obtain r g where p: "p = (r, g)" and r: "r \<in> A" and g: "g \<in> ?D"
        and e: "?F g = pre r" by auto
      have r': "r \<in> {1 .. n}" using r Suc.prems(2) by auto
      from key [OF g r'] r e have "floyd_step (g(n := r)) n (?F g) = A" by simp
      then show "p \<in> {(r, g). r \<in> {1 .. n} \<and> g \<in> ?D \<and> floyd_step (g(n := r)) n (?F g) = A}"
        using p r' g by simp
    qed
  qed
  have "{u \<in> draw_space n (1 + int m). floyd_set n (1 + int m) u = A}
          = (\<lambda>(r, g). g(n := r)) ` {(r, g). r \<in> {1 .. n} \<and> g \<in> ?D
                                        \<and> floyd_step (g(n := r)) n (?F g) = A}"
    by (auto simp add: draw_space_Suc floyd_set_Suc floyd_set_upd)
  moreover have "inj_on (\<lambda>(r, g). g(n := r)) {(r, g). r \<in> {1 .. n} \<and> g \<in> ?D
                                        \<and> floyd_step (g(n := r)) n (?F g) = A}"
    by (rule inj_on_subset [OF draw_space_inj [of n m]]) auto
  ultimately have "card {u \<in> draw_space n (1 + int m). floyd_set n (1 + int m) u = A}
          = card {(r, g). r \<in> {1 .. n} \<and> g \<in> ?D \<and> floyd_step (g(n := r)) n (?F g) = A}"
    by (simp only: card_image)
  also have "\<dots> = card (SIGMA r : A. {g \<in> ?D. ?F g = pre r})"
    by (simp only: sol)
  also have "\<dots> = (\<Sum>r \<in> A. card {g \<in> ?D. ?F g = pre r})"
    using finA by (intro card_SigmaI) auto
  also have "\<dots> = (\<Sum>r \<in> A. fact m)"
    by (intro sum.cong) (simp_all add: cnt)
  also have "\<dots> = fact (Suc m)"
    using Suc.prems(3) by simp
  finally show ?case by simp
qed

lemma selected_replicate_False [simp]: "selected (replicate N False) = {}"
  by (auto simp add: selected_def)

lemma selected_update:
  "1 \<le> p \<Longrightarrow> p \<le> int (length comb) \<Longrightarrow>
   selected (comb[nat (p - 1) := True]) = insert p (selected comb)"
  by (auto simp add: selected_def nth_list_update_if)

lemma selected_nth:
  "1 \<le> p \<Longrightarrow> p \<le> int (length comb) \<Longrightarrow> comb ! nat (p - 1) \<longleftrightarrow> p \<in> selected comb"
  by (simp add: selected_def)

lemma selected_fold:
  fixes u :: "int \<Rightarrow> int"
  defines "stp \<equiv> (\<lambda>j combination.
                        let r = u j
                        in if combination ! nat (r - 1)
                           then combination[nat (j - 1) := True]
                           else combination[nat (r - 1) := True])"
  assumes "\<forall>j \<in> set js. 1 \<le> u j \<and> u j \<le> j \<and> j \<le> int (length comb)"
  shows "length (fold stp js comb) = length comb
         \<and> selected (fold stp js comb) = fold (floyd_step u) js (selected comb)"
  using assms(2)
proof (induction js arbitrary: comb)
  case Nil
  then show ?case by simp
next
  case (Cons j js)
  have j: "1 \<le> u j" "u j \<le> j" "j \<le> int (length comb)" using Cons.prems by simp_all
  have len: "length (stp j comb) = length comb" by (simp add: stp_def Let_def)
  have sel: "selected (stp j comb) = floyd_step u j (selected comb)"
    using j by (simp add: stp_def Let_def floyd_step_def selected_update selected_nth)
  show ?case
    using Cons.IH [of "stp j comb"] Cons.prems len sel by simp
qed

lemma random_combination_selected:
  assumes "0 \<le> k" "k \<le> n" "draws_ok n k u"
  shows "\<exists>msk. random_combination n k u = Inr msk \<and> length msk = nat n
               \<and> selected msk = floyd_set n k u"
proof -
  have "\<forall>j \<in> set [n - k + 1 .. n]. 1 \<le> u j \<and> u j \<le> j \<and> j \<le> int (length (replicate (nat n) False))"
    using assms by (auto simp add: draws_ok_def)
  from selected_fold [OF this] show ?thesis
    using assms by (simp add: random_combination_def floyd_set_def)
qed

lemma selected_inj:
  assumes "length a = length b" "selected a = selected b"
  shows "a = b"
proof (rule nth_equalityI)
  show "length a = length b" by fact
next
  fix i assume i: "i < length a"
  have "a ! i \<longleftrightarrow> int i + 1 \<in> selected a" using i by (simp add: selected_def)
  moreover have "b ! i \<longleftrightarrow> int i + 1 \<in> selected b" using i assms(1) by (simp add: selected_def)
  ultimately show "a ! i = b ! i" using assms(2) by simp
qed

lemma card_selected: "card (selected msk) = length (filter (\<lambda>b. b) msk)"
proof -
  have "selected msk = (\<lambda>i. int i + 1) ` {i. i < length msk \<and> msk ! i}"
  proof (intro equalityI subsetI)
    fix p assume "p \<in> selected msk"
    then have "nat (p - 1) \<in> {i. i < length msk \<and> msk ! i}" "p = int (nat (p - 1)) + 1"
      by (auto simp add: selected_def)
    then show "p \<in> (\<lambda>i. int i + 1) ` {i. i < length msk \<and> msk ! i}" by blast
  qed (auto simp add: selected_def)
  moreover have "inj_on (\<lambda>i. int i + 1) {i. i < length msk \<and> msk ! i}"
    by (simp add: inj_on_def)
  ultimately show ?thesis
    by (simp add: card_image length_filter_conv_card)
qed

lemma selected_bounds: "selected msk \<subseteq> {1 .. int (length msk)}"
  by (auto simp add: selected_def)

lemma card_draw_space:
  "int m \<le> n \<Longrightarrow> card (draw_space n (int m)) * fact (nat n - m) = fact (nat n)"
proof (induction m arbitrary: n)
  case 0
  then show ?case by simp
next
  case (Suc m)
  have "card (draw_space n (1 + int m)) = card ({1 .. n} \<times> draw_space (n - 1) (int m))"
    by (simp only: draw_space_Suc card_image [OF draw_space_inj])
  also have "\<dots> = nat n * card (draw_space (n - 1) (int m))"
    by (simp add: card_cartesian_product)
  finally have c: "card (draw_space n (1 + int m)) = nat n * card (draw_space (n - 1) (int m))" .
  have IH: "card (draw_space (n - 1) (int m)) * fact (nat (n - 1) - m) = fact (nat (n - 1))"
    using Suc.IH [of "n - 1"] Suc.prems by simp
  have e: "nat n - Suc m = nat (n - 1) - m" by simp
  have "nat n = Suc (nat (n - 1))" using Suc.prems by simp
  then have f: "(fact (nat n) :: nat) = nat n * fact (nat (n - 1))"
    using fact_Suc [of "nat (n - 1)", where ?'a = nat] by simp
  have "card (draw_space n (1 + int m)) * fact (nat n - Suc m)
          = nat n * (card (draw_space (n - 1) (int m)) * fact (nat (n - 1) - m))"
    by (simp only: c e mult.assoc)
  then show ?case using IH f by simp
qed

lemma random_combination_count:
  assumes k: "0 \<le> k" "k \<le> n"
    and msk: "length msk = nat n" "length (filter (\<lambda>b. b) msk) = nat k"
  shows "card {u \<in> draw_space n k. random_combination n k u = Inr msk} = fact (nat k)"
proof -
  have "{u \<in> draw_space n k. random_combination n k u = Inr msk}
          = {u \<in> draw_space n k. floyd_set n k u = selected msk}"
  proof (intro Collect_cong conj_cong refl)
    fix u assume u: "u \<in> draw_space n k"
    obtain c where c: "random_combination n k u = Inr c" "length c = nat n"
        "selected c = floyd_set n k u"
      using random_combination_selected [OF k draw_space_ok [OF u]] by blast
    show "random_combination n k u = Inr msk \<longleftrightarrow> floyd_set n k u = selected msk"
      using c msk(1) selected_inj [of c msk] by auto
  qed
  moreover have "card {u \<in> draw_space n (int (nat k)). floyd_set n (int (nat k)) u = selected msk}
                   = fact (nat k)"
    using k msk selected_bounds [of msk] by (intro floyd_count) (simp_all add: card_selected)
  ultimately show ?thesis using k by simp
qed

text \<open>
  C7. For \<open>0 \<le> k \<le> n\<close> and draws in their ranges, \<^verbatim>\<open>random_combination(n, k, _)\<close>
  yields a mask of length \<open>n\<close> with exactly \<open>k\<close> true entries. Every such mask \<open>msk\<close>
  is the result of the same share of the equally likely draws, one in \<open>n choose k\<close>:
  the number of points of the draw space that produce \<open>msk\<close>, times \<open>n choose k\<close>, is
  the size of the whole space. For \<open>k = 0\<close> the mask is all false, for \<open>k = n\<close> all
  true.
\<close>

theorem random_combination_uniform:
  assumes "0 \<le> k" "k \<le> n" "draws_ok n k unif"
    and "length msk = nat n" "length (filter (\<lambda>b. b) msk) = nat k"
  shows "(\<exists>combination. random_combination n k unif = Inr combination
            \<and> length combination = nat n
            \<and> length (filter (\<lambda>b. b) combination) = nat k)
         \<and> card {u \<in> draw_space n k. random_combination n k u = Inr msk} * (nat n choose nat k)
             = card (draw_space n k)
         \<and> 0 < card (draw_space n k)
         \<and> (k = 0 \<longrightarrow> random_combination n k unif = Inr (replicate (nat n) False))
         \<and> (k = n \<longrightarrow> random_combination n k unif = Inr (replicate (nat n) True))"
proof -
  obtain c where c: "random_combination n k unif = Inr c" "length c = nat n"
      "selected c = floyd_set n k unif"
    using random_combination_selected [OF assms(1-3)] by blast
  have "card (floyd_set n (int (nat k)) unif) = nat k"
    using floyd_set_props [of "nat k" n unif] assms(1-3) by simp
  then have cnt: "length (filter (\<lambda>b. b) c) = nat k"
    using c(3) assms(1) by (simp add: card_selected [symmetric])
  have first: "\<exists>combination. random_combination n k unif = Inr combination
            \<and> length combination = nat n
            \<and> length (filter (\<lambda>b. b) combination) = nat k"
    using c cnt by blast
  have pre: "card {u \<in> draw_space n k. random_combination n k u = Inr msk} = fact (nat k)"
    by (rule random_combination_count [OF assms(1,2,4,5)])
  have space: "card (draw_space n k) * fact (nat n - nat k) = fact (nat n)"
    using card_draw_space [of "nat k" n] assms(1,2) by simp
  have "fact (nat k) * fact (nat n - nat k) * (nat n choose nat k) = (fact (nat n) :: nat)"
    using assms(1,2) by (intro binomial_fact_lemma) simp
  then have "(fact (nat k) * (nat n choose nat k)) * fact (nat n - nat k)
               = card (draw_space n k) * fact (nat n - nat k)"
    using space by (simp add: mult_ac)
  then have share: "fact (nat k) * (nat n choose nat k) = card (draw_space n k)"
    by simp
  have pos: "0 < card (draw_space n k)"
    using space by (metis fact_nonzero mult_is_0 neq0_conv)
  have none: "k = 0 \<longrightarrow> random_combination n k unif = Inr (replicate (nat n) False)"
    using assms(2) by (simp add: random_combination_def)
  have all: "k = n \<longrightarrow> random_combination n k unif = Inr (replicate (nat n) True)"
  proof
    assume "k = n"
    then have "length (filter (\<lambda>b. b) c) = length c" using cnt c(2) by simp
    then have "\<forall>b \<in> set c. b" by (metis filter_id_conv length_filter_less less_irrefl linorder_neqE_nat)
    then have "c = replicate (nat n) True"
      using c(2) by (intro replicate_eqI) auto
    then show "random_combination n k unif = Inr (replicate (nat n) True)" using c(1) by simp
  qed
  show ?thesis using first pre share pos none all by simp
qed

theorem random_combination_uniform_witness:
  "draws_ok 5 2 unif_one
   \<and> random_combination 5 2 unif_one = Inr [True, False, False, False, True]
   \<and> card {u \<in> draw_space 5 2. random_combination 5 2 u = Inr [True, False, False, False, True]}
         * (5 choose 2) = card (draw_space 5 2)
   \<and> random_combination 5 0 unif_one = Inr (replicate 5 False)
   \<and> random_combination 5 5 unif_one = Inr (replicate 5 True)"
proof -
  have d2: "draws_ok 5 2 unif_one" and d0: "draws_ok 5 0 unif_one" and d5: "draws_ok 5 5 unif_one"
    by (simp_all add: draws_ok_def unif_one_def)
  have e: "random_combination 5 2 unif_one = Inr [True, False, False, False, True]"
    by code_simp
  have "card {u \<in> draw_space 5 2. random_combination 5 2 u = Inr [True, False, False, False, True]}
         * (5 choose 2) = card (draw_space 5 2)"
    using random_combination_uniform [of 2 5 unif_one "[True, False, False, False, True]"] d2
    by simp
  moreover have "random_combination 5 0 unif_one = Inr (replicate 5 False)"
    using random_combination_uniform [of 0 5 unif_one "replicate 5 False"] d0
    by simp
  moreover have "random_combination 5 5 unif_one = Inr (replicate 5 True)"
    using random_combination_uniform [of 5 5 unif_one "replicate 5 True"] d5
    by simp
  ultimately show ?thesis using d2 e by simp
qed


section \<open>What the partition pass computes\<close>

lemma count_adjacent_revealed_cells_zero:
  "count_adjacent_revealed_cells g x y = 0
     \<longleftrightarrow> \<not> (\<exists>(i, j) \<in> set (nbrs g x y). visible (cell_at g i j))"
  by (auto simp add: count_adjacent_revealed_cells_def fold_count filter_empty_conv)

lemma partition_step_cases:
  "partition_step g c p =
     (if revealed_number g c then p\<lparr>num_m := num_m p + 1\<rparr>
      else if deeply_hidden g c
      then p\<lparr>dh_cells := dh_cells p + 1,
              dh_mine_count := dh_mine_count p + (if mined g c then 1 else 0)\<rparr>
      else if shallowly_hidden g c
      then p\<lparr>num_n := num_n p + 1,
              column_lookup := (column_lookup p)[idx g (fst c) (snd c) := num_n p + 1],
              sh_mine_count := sh_mine_count p + (if mined g c then 1 else 0)\<rparr>
      else p)"
  by (cases c)
     (auto simp add: partition_step_def revealed_number_def deeply_hidden_def shallowly_hidden_def mined_def
                     count_adjacent_revealed_cells_zero Let_def)

lemma class_exclusive:
  "\<not> (deeply_hidden g c \<and> shallowly_hidden g c)"
  "\<not> (revealed_number g c \<and> shallowly_hidden g c)"
  "\<not> (revealed_number g c \<and> deeply_hidden g c)"
  by (cases c; auto simp add: deeply_hidden_def shallowly_hidden_def revealed_number_def)+

lemma partition_step_fields:
  "num_m (partition_step g c p) = num_m p + (if revealed_number g c then 1 else 0)"
  "num_n (partition_step g c p) = num_n p + (if shallowly_hidden g c then 1 else 0)"
  "dh_cells (partition_step g c p) = dh_cells p + (if deeply_hidden g c then 1 else 0)"
  "dh_mine_count (partition_step g c p)
     = dh_mine_count p + (if deeply_hidden g c \<and> mined g c then 1 else 0)"
  "sh_mine_count (partition_step g c p)
     = sh_mine_count p + (if shallowly_hidden g c \<and> mined g c then 1 else 0)"
  "column_lookup (partition_step g c p)
     = (if shallowly_hidden g c then (column_lookup p)[idx g (fst c) (snd c) := num_n p + 1]
        else column_lookup p)"
  using class_exclusive [of g c] by (auto simp add: partition_step_cases)

lemma partition_fold_counts:
  "num_m (fold (partition_step g) cs p) = num_m p + int (length (filter (revealed_number g) cs))
   \<and> num_n (fold (partition_step g) cs p) = num_n p + int (length (filter (shallowly_hidden g) cs))
   \<and> dh_cells (fold (partition_step g) cs p) = dh_cells p + int (length (filter (deeply_hidden g) cs))
   \<and> dh_mine_count (fold (partition_step g) cs p)
       = dh_mine_count p + int (length (filter (\<lambda>c. deeply_hidden g c \<and> mined g c) cs))
   \<and> sh_mine_count (fold (partition_step g) cs p)
       = sh_mine_count p + int (length (filter (\<lambda>c. shallowly_hidden g c \<and> mined g c) cs))
   \<and> length (column_lookup (fold (partition_step g) cs p)) = length (column_lookup p)"
proof (induction cs arbitrary: p)
  case Nil
  then show ?case by simp
next
  case (Cons c cs)
  show ?case
    using Cons.IH [of "partition_step g c p"] by (simp add: partition_step_fields)
qed

lemma rank_of_Cons:
  "rank_of P (d # cs) c = (if d = c then 0 else (if P d then 1 else 0) + rank_of P cs c)"
  by (simp add: rank_of_def)

lemma partition_fold_lookup:
  assumes "grid_ok g" "distinct cs" "\<forall>(i, j) \<in> set cs. in_grid g i j" "in_grid g x y"
    and "length (column_lookup p) = length (minefield g)"
  shows "column_lookup (fold (partition_step g) cs p) ! idx g x y =
           (if (x, y) \<in> set cs \<and> shallowly_hidden g (x, y)
            then num_n p + 1 + int (rank_of (shallowly_hidden g) cs (x, y))
            else column_lookup p ! idx g x y)"
  using assms(2,3,5)
proof (induction cs arbitrary: p)
  case Nil
  then show ?case by simp
next
  case (Cons c cs)
  obtain i j where c: "c = (i, j)" by (cases c)
  have ij: "in_grid g i j" using Cons.prems c by simp
  define p1 where "p1 = partition_step g c p"
  have len1: "length (column_lookup p1) = length (minefield g)"
    using Cons.prems(3) by (simp add: p1_def partition_step_fields)
  have n1: "num_n p1 = num_n p + (if shallowly_hidden g c then 1 else 0)"
    unfolding p1_def by (simp add: partition_step_fields)
  have l1: "column_lookup p1 ! idx g x y =
              (if (x, y) = c \<and> shallowly_hidden g c then num_n p + 1 else column_lookup p ! idx g x y)"
    unfolding p1_def
    using idx_inj [OF assms(4) ij] idx_less [OF assms(1) ij] Cons.prems(3) c
    by (auto simp add: partition_step_fields)
  have IH: "column_lookup (fold (partition_step g) cs p1) ! idx g x y =
           (if (x, y) \<in> set cs \<and> shallowly_hidden g (x, y)
            then num_n p1 + 1 + int (rank_of (shallowly_hidden g) cs (x, y))
            else column_lookup p1 ! idx g x y)"
    using Cons.prems len1 by (intro Cons.IH) auto
  have "fold (partition_step g) (c # cs) p = fold (partition_step g) cs p1"
    by (simp add: p1_def)
  then show ?case
    using Cons.prems(1) by (auto simp add: IH n1 l1 rank_of_Cons)
qed

lemma partition_pass_counts:
  "num_m (partition_pass g) = count_cells (revealed_number g) g"
  "num_n (partition_pass g) = count_cells (shallowly_hidden g) g"
  "dh_cells (partition_pass g) = count_cells (deeply_hidden g) g"
  "dh_mine_count (partition_pass g) = count_cells (\<lambda>c. deeply_hidden g c \<and> mined g c) g"
  "sh_mine_count (partition_pass g) = count_cells (\<lambda>c. shallowly_hidden g c \<and> mined g c) g"
  by (simp_all add: partition_pass_def partition_fold_counts count_cells_def)

lemma partition_pass_lookup:
  assumes "grid_ok g" "in_grid g x y"
  shows "column_lookup (partition_pass g) ! idx g x y
           = (if shallowly_hidden g (x, y) then variable g (x, y) else 0)"
proof -
  have "idx g x y < nat (grid_width g * grid_height g)"
    using idx_less [OF assms] assms(1) by (simp add: grid_ok_def)
  then show ?thesis
    unfolding partition_pass_def
    using assms
    by (subst partition_fold_lookup [OF assms(1) distinct_cells _ assms(2)])
       (auto simp add: set_cells variable_def grid_ok_def)
qed

lemma rank_of_filter:
  "c \<in> set cs \<Longrightarrow> P c \<Longrightarrow>
   rank_of P cs c < length (filter P cs) \<and> filter P cs ! rank_of P cs c = c"
  by (induction cs) (auto simp add: rank_of_Cons)

lemma rank_of_inj:
  assumes "c \<in> set cs" "P c" "d \<in> set cs" "P d" "rank_of P cs c = rank_of P cs d"
  shows "c = d"
proof -
  have "c = filter P cs ! rank_of P cs c"
    using rank_of_filter [of c cs P] assms(1,2) by simp
  also have "\<dots> = filter P cs ! rank_of P cs d"
    by (simp only: assms(5))
  also have "\<dots> = d"
    using rank_of_filter [of d cs P] assms(3,4) by simp
  finally show ?thesis .
qed

lemma variable_range:
  assumes "in_grid g x y" "shallowly_hidden g (x, y)"
  shows "1 \<le> variable g (x, y)" "variable g (x, y) \<le> count_cells (shallowly_hidden g) g"
  using rank_of_filter [of "(x, y)" "cells g" "shallowly_hidden g"] assms
  by (simp_all add: variable_def count_cells_def set_cells)

lemma variable_inj:
  assumes "in_grid g x y" "shallowly_hidden g (x, y)" "in_grid g i j" "shallowly_hidden g (i, j)"
    and "variable g (x, y) = variable g (i, j)"
  shows "(x, y) = (i, j)"
  using assms by (intro rank_of_inj [of _ "cells g" "shallowly_hidden g"])
                 (simp_all add: set_cells variable_def)

lemma nbrs_sym:
  "in_grid g x y \<Longrightarrow> (i, j) \<in> set (nbrs g x y) \<Longrightarrow> (x, y) \<in> set (nbrs g i j)"
  by (simp add: set_nbrs cells_are_adjacent_sym)

lemma hidden_nbrs_shallow:
  assumes "in_grid g x y" "visible (cell_at g x y)" "(i, j) \<in> set (hidden_nbrs g (x, y))"
  shows "in_grid g i j \<and> shallowly_hidden g (i, j)"
  using assms nbrs_sym [of g x y i j]
  by (auto simp add: hidden_nbrs_def shallowly_hidden_def set_nbrs)

lemma add_constraintex_rows [simp]:
  "lp_rows (add_constraintex lp colno ct rh)
     = lp_rows lp @ [\<lparr>row_entries = map (\<lambda>c. (c, 1)) colno, row_type = ct, row_rh = rh\<rparr>]"
  "lp_columns (add_constraintex lp colno ct rh) = lp_columns lp"
  by (simp_all add: add_constraintex_def)

lemma add_constraint_rows [simp]:
  "lp_rows (add_constraint lp ct rh) = lp_rows lp @ [bound_constraint (lp_columns lp) ct rh]"
  "lp_columns (add_constraint lp ct rh) = lp_columns lp"
  by (simp_all add: add_constraint_def bound_constraint_def)

lemma number_row_fold:
  "lp_columns (fold (number_row g lookup) cs lp) = lp_columns lp
   \<and> lp_rows (fold (number_row g lookup) cs lp)
       = lp_rows lp @ map (\<lambda>c. \<lparr>row_entries = map (\<lambda>(i, j). (lookup ! idx g i j, 1)) (hidden_nbrs g c),
                                 row_type = EQ, row_rh = uint (adj (cell_at g (fst c) (snd c)))\<rparr>)
                          (filter (revealed_number g) cs)"
proof (induction cs arbitrary: lp)
  case Nil
  then show ?case by simp
next
  case (Cons c cs)
  obtain x y where c: "c = (x, y)" by (cases c)
  have "number_row g lookup c lp =
          (if revealed_number g c
           then add_constraintex lp (map (\<lambda>(i, j). lookup ! idx g i j) (hidden_nbrs g c)) EQ
                  (uint (adj (cell_at g (fst c) (snd c))))
           else lp)"
    by (simp add: c number_row_def revealed_number_def hidden_nbrs_def)
  then show ?case
    using Cons.IH [of "number_row g lookup c lp"]
    by (auto simp add: comp_def case_prod_unfold)
qed

lemma number_rows_variables:
  assumes "grid_ok g" "c \<in> set (cells g)" "revealed_number g c"
  shows "\<lparr>row_entries = map (\<lambda>(i, j). (column_lookup (partition_pass g) ! idx g i j, 1)) (hidden_nbrs g c),
          row_type = EQ, row_rh = uint (adj (cell_at g (fst c) (snd c)))\<rparr> = number_constraint g c"
proof -
  obtain x y where c: "c = (x, y)" by (cases c)
  have "column_lookup (partition_pass g) ! idx g i j = variable g (i, j)"
    if "(i, j) \<in> set (hidden_nbrs g c)" for i j
    using hidden_nbrs_shallow [of g x y i j] that assms
    by (simp add: c set_cells revealed_number_def partition_pass_lookup)
  then have "map (\<lambda>(i, j). (column_lookup (partition_pass g) ! idx g i j, 1)) (hidden_nbrs g c)
               = map (\<lambda>d. (variable g d, 1)) (hidden_nbrs g c)"
    by (intro map_cong) auto
  then show ?thesis by (simp add: number_constraint_def)
qed


section \<open>The constraint system\<close>

lemma hidden_class:
  "\<not> visible (cell_at g x y) \<Longrightarrow>
   (count_adjacent_revealed_cells g x y = 0 \<longleftrightarrow> deeply_hidden g (x, y))
   \<and> (count_adjacent_revealed_cells g x y \<noteq> 0 \<longleftrightarrow> shallowly_hidden g (x, y))"
  by (simp add: count_adjacent_revealed_cells_zero deeply_hidden_def shallowly_hidden_def)

lemma alter_minefield_calls_solver:
  assumes "solver_invoked g gridx gridy mine_present"
  shows "alter_minefield lib unif g gridx gridy mine_present =
     (let requested_cell_is_deeply_hidden = (count_adjacent_revealed_cells g gridx gridy = 0);
          p = partition_pass g;
          dh = (if requested_cell_is_deeply_hidden then dh_cells p - 1 else dh_cells p);
          T = (if requested_cell_is_deeply_hidden \<and> mine_present then mines_total g - 1
               else mines_total g);
          lp = solver_input g gridx gridy mine_present
      in if \<not> make_lp_ok lib (num_n p) then Inr (False, g)
         else if \<not> (get_Nrows lp = num_m p + 2 + (if requested_cell_is_deeply_hidden then 0 else 1))
         then Inl AssertionFailed
         else if solve lib lp = OPTIMAL \<or> solve lib lp = SUBOPTIMAL
         then commit unif g gridx gridy mine_present requested_cell_is_deeply_hidden
                True (get_variables lib lp) (num_n p) (sh_mine_count p) T dh
         else Inr (False, g))"
proof -
  let ?deep = "count_adjacent_revealed_cells g gridx gridy = 0"
  let ?p = "partition_pass g"
  let ?dh = "(if ?deep then dh_cells ?p - 1 else dh_cells ?p)"
  have f: "(mine_present = mine (cell_at g gridx gridy)) = False"
    "visible (cell_at g gridx gridy) = False"
    "(mines_total g = 0) = False"
    "(mines_total g = grid_width g * grid_height g \<and> \<not> mine_present) = False"
    "((num_m ?p = 0) = (num_n ?p = 0)) = True"
    "(mines_total g = sh_mine_count ?p + dh_mine_count ?p) = True"
    "(num_m ?p = 0) = False" "(num_n ?p = 0) = False"
    "(?deep \<and> mine_present \<and> dh_mine_count ?p > 0) = False"
    "(?deep \<and> \<not> mine_present \<and> dh_mine_count ?p < ?dh) = False"
    using assms unfolding solver_invoked_def Let_def by blast+
  show ?thesis
    unfolding alter_minefield_def alter_search_def solver_input_def Let_def
    by (simp only: f simp_thms if_True if_False)
qed


lemma solver_input_rows_aux:
  assumes ok: "grid_ok g" and xy: "in_grid g gridx gridy" and h: "\<not> visible (cell_at g gridx gridy)"
  shows "lp_rows (solver_input g gridx gridy mine_present) =
           map (number_constraint g) (filter (revealed_number g) (cells g))
           @ [bound_constraint (count_cells (shallowly_hidden g) g) GE
                ((mines_total g - (if deeply_hidden g (gridx, gridy) \<and> mine_present then 1 else 0))
                 - (count_cells (deeply_hidden g) g
                    - (if deeply_hidden g (gridx, gridy) then 1 else 0))),
              bound_constraint (count_cells (shallowly_hidden g) g) LE
                (mines_total g - (if deeply_hidden g (gridx, gridy) \<and> mine_present then 1 else 0))]
           @ (if shallowly_hidden g (gridx, gridy)
              then [pin_constraint g (gridx, gridy) mine_present] else [])"
proof -
  let ?p = "partition_pass g"
  have rows: "map (\<lambda>c. \<lparr>row_entries = map (\<lambda>(i, j). (column_lookup ?p ! idx g i j, 1)) (hidden_nbrs g c),
                          row_type = EQ, row_rh = uint (adj (cell_at g (fst c) (snd c)))\<rparr>)
                  (filter (revealed_number g) (cells g))
              = map (number_constraint g) (filter (revealed_number g) (cells g))"
    by (intro map_cong refl number_rows_variables [OF ok]) auto
  have cls: "deeply_hidden g (gridx, gridy) \<longleftrightarrow> \<not> shallowly_hidden g (gridx, gridy)"
    using h by (auto simp add: deeply_hidden_def shallowly_hidden_def)
  have pin: "shallowly_hidden g (gridx, gridy) \<Longrightarrow>
               column_lookup ?p ! idx g gridx gridy = variable g (gridx, gridy)"
    by (simp add: partition_pass_lookup [OF ok xy])
  have deep: "(count_adjacent_revealed_cells g gridx gridy = 0) = deeply_hidden g (gridx, gridy)"
    using hidden_class [OF h] by simp
  show ?thesis
  proof (cases "deeply_hidden g (gridx, gridy)")
    case True
    then show ?thesis
      using cls
      by (simp add: solver_input_def build_lp_def Let_def number_row_fold rows
                    partition_pass_counts deep)
  next
    case False
    then show ?thesis
      using cls pin
      by (simp add: solver_input_def build_lp_def Let_def number_row_fold rows
                    partition_pass_counts deep pin_constraint_def)
  qed
qed

text \<open>
  C3, as the code has it. Whenever \<^verbatim>\<open>alter_minefield\<close> invokes the solver, the rows of
  the program are, in this order: for every revealed number one equality that sets the sum
  of the variables of its hidden neighbours to the number shown; a lower and an upper bound
  on the sum of all \<open>n\<close> variables; and, exactly when the clicked cell is shallowly hidden,
  an equality pinning its variable to the request. The bounds are \<open>T - D\<close> and \<open>T\<close>, where
  \<open>T\<close> and \<open>D\<close> are the total number of mines and the number of deeply hidden cells
  after the clicked cell has been set aside: when it is deeply hidden, \<open>D\<close> does not count
  it, and \<open>T\<close> is one less than \<^verbatim>\<open>mines_total()\<close> if a mine is requested there. The
  program has \<open>m + 2\<close> rows when the clicked cell is deeply hidden and \<open>m + 3\<close> when it is
  shallowly hidden.
\<close>

theorem solver_input_constraints:
  assumes "grid_ok g" "in_grid g gridx gridy" "solver_invoked g gridx gridy mine_present"
  shows "lp_rows (solver_input g gridx gridy mine_present) =
           map (number_constraint g) (filter (revealed_number g) (cells g))
           @ [bound_constraint (count_cells (shallowly_hidden g) g) GE
                ((mines_total g - (if deeply_hidden g (gridx, gridy) \<and> mine_present then 1 else 0))
                 - (count_cells (deeply_hidden g) g
                    - (if deeply_hidden g (gridx, gridy) then 1 else 0))),
              bound_constraint (count_cells (shallowly_hidden g) g) LE
                (mines_total g - (if deeply_hidden g (gridx, gridy) \<and> mine_present then 1 else 0))]
           @ (if shallowly_hidden g (gridx, gridy)
              then [pin_constraint g (gridx, gridy) mine_present] else [])
         \<and> get_Nrows (solver_input g gridx gridy mine_present) =
             count_cells (revealed_number g) g + 2
             + (if deeply_hidden g (gridx, gridy) then 0 else 1)
         \<and> (deeply_hidden g (gridx, gridy) \<longleftrightarrow> \<not> shallowly_hidden g (gridx, gridy))"
proof -
  have h: "\<not> visible (cell_at g gridx gridy)"
    using assms(3) by (simp add: solver_invoked_def Let_def)
  have cls: "deeply_hidden g (gridx, gridy) \<longleftrightarrow> \<not> shallowly_hidden g (gridx, gridy)"
    using h by (auto simp add: deeply_hidden_def shallowly_hidden_def)
  show ?thesis
    using cls
    by (simp add: solver_input_rows_aux [OF assms(1,2) h] get_Nrows_def count_cells_def)
qed

theorem solver_input_constraints_witness:
  "grid_ok row4 \<and> in_grid row4 1 0 \<and> solver_invoked row4 1 0 False
   \<and> lp_rows (solver_input row4 1 0 False) =
       map (number_constraint row4) (filter (revealed_number row4) (cells row4))
       @ [bound_constraint (count_cells (shallowly_hidden row4) row4) GE
            ((mines_total row4 - (if deeply_hidden row4 (1, 0) \<and> False then 1 else 0))
             - (count_cells (deeply_hidden row4) row4 - (if deeply_hidden row4 (1, 0) then 1 else 0))),
          bound_constraint (count_cells (shallowly_hidden row4) row4) LE
            (mines_total row4 - (if deeply_hidden row4 (1, 0) \<and> False then 1 else 0))]
       @ (if shallowly_hidden row4 (1, 0) then [pin_constraint row4 (1, 0) False] else [])
   \<and> get_Nrows (solver_input row4 1 0 False) = 4"
proof -
  have a: "grid_ok row4" "in_grid row4 1 0" "solver_invoked row4 1 0 False"
    by code_simp+
  have n: "count_cells (revealed_number row4) row4 + 2
             + (if deeply_hidden row4 (1, 0) then 0 else 1) = 4"
    by code_simp
  show ?thesis
    using a n solver_input_constraints [OF a, of ] by simp
qed

text \<open>
  The claim as worded puts \<^verbatim>\<open>mines_total()\<close> on the upper bound. In the row of four,
  asking for a mine in the last cell (deeply hidden, no mine among the deeply hidden cells)
  invokes the solver with upper bound 0, while the grid holds one mine.
\<close>

theorem solver_input_bounds_counterexample:
  "solver_invoked row4 3 0 True \<and> mines_total row4 = 1
   \<and> lp_rows (solver_input row4 3 0 True) =
       [\<lparr>row_entries = [(1, 1)], row_type = EQ, row_rh = 1\<rparr>,
        \<lparr>row_entries = [(1, 1)], row_type = GE, row_rh = - 1\<rparr>,
        \<lparr>row_entries = [(1, 1)], row_type = LE, row_rh = 0\<rparr>]"
  by code_simp


section \<open>The commit loop, cell by cell\<close>

lemma only_mines_differ_refl [simp]: "only_mines_differ g g"
  by (simp add: only_mines_differ_def)

lemma only_mines_differ_upd:
  assumes "only_mines_differ g s"
  shows "only_mines_differ g (upd_cell s i j (\<lambda>c. c\<lparr>mine := v\<rparr>))"
  using assms by (auto simp add: only_mines_differ_def upd_cell_def nth_list_update_if)

lemma only_mines_differ_geometry:
  assumes "only_mines_differ g s"
  shows "grid_ok s = grid_ok g" "in_grid s = in_grid g" "nbrs s = nbrs g" "cells s = cells g"
    "idx s = idx g"
  using assms
  by (simp_all add: only_mines_differ_def grid_ok_def in_grid_def nbrs_def cells_def idx_def
                    fun_eq_iff)

lemma only_mines_differ_cell:
  assumes "only_mines_differ g s" "grid_ok g" "in_grid g x y"
  shows "(cell_at s x y)\<lparr>mine := False\<rparr> = (cell_at g x y)\<lparr>mine := False\<rparr>"
  using assms idx_less [of g x y]
  by (simp add: cell_at_def only_mines_differ_geometry(5) [OF assms(1)])
     (simp add: only_mines_differ_def)

lemma only_mines_differ_visible:
  assumes "only_mines_differ g s" "grid_ok g" "in_grid g x y"
  shows "visible (cell_at s x y) = visible (cell_at g x y)"
proof -
  have "visible ((cell_at s x y)\<lparr>mine := False\<rparr>) = visible ((cell_at g x y)\<lparr>mine := False\<rparr>)"
    by (simp only: only_mines_differ_cell [OF assms])
  then show ?thesis by simp
qed

lemma only_mines_differ_adj:
  assumes "only_mines_differ g s" "grid_ok g" "in_grid g x y"
  shows "adj (cell_at s x y) = adj (cell_at g x y)"
proof -
  have "adj ((cell_at s x y)\<lparr>mine := False\<rparr>) = adj ((cell_at g x y)\<lparr>mine := False\<rparr>)"
    by (simp only: only_mines_differ_cell [OF assms])
  then show ?thesis by simp
qed

lemma only_mines_differ_revealed_count:
  assumes "only_mines_differ g s" "grid_ok g"
  shows "count_adjacent_revealed_cells s x y = count_adjacent_revealed_cells g x y"
proof -
  have "filter (\<lambda>(i, j). visible (cell_at s i j)) (nbrs g x y)
          = filter (\<lambda>(i, j). visible (cell_at g i j)) (nbrs g x y)"
    by (intro filter_cong refl)
       (auto simp add: set_nbrs only_mines_differ_visible [OF assms])
  then show ?thesis
    by (simp add: count_adjacent_revealed_cells_def fold_count
                  only_mines_differ_geometry [OF assms(1)])
qed

lemma hidden_class_iff:
  "shallowly_hidden g (x, y)
     \<longleftrightarrow> \<not> visible (cell_at g x y) \<and> count_adjacent_revealed_cells g x y \<noteq> 0"
  "deeply_hidden g (x, y)
     \<longleftrightarrow> \<not> visible (cell_at g x y) \<and> count_adjacent_revealed_cells g x y = 0"
  by (simp_all add: count_adjacent_revealed_cells_zero deeply_hidden_def shallowly_hidden_def)

lemma only_mines_differ_classes:
  assumes "only_mines_differ g s" "grid_ok g" "in_grid g x y"
  shows "shallowly_hidden s (x, y) = shallowly_hidden g (x, y)"
    and "deeply_hidden s (x, y) = deeply_hidden g (x, y)"
  by (simp_all add: hidden_class_iff only_mines_differ_visible [OF assms]
                    only_mines_differ_revealed_count [OF assms(1,2)])

lemma write_cell_step:
  assumes "only_mines_differ g s" "grid_ok g" "in_grid g x y"
  shows "write_cell gridx gridy ran_lp solution dh_mines dh (x, y) (Inr (s, a, b)) =
           (if shallowly_hidden g (x, y)
            then (if ran_lp
                  then Inr (upd_cell s x y (\<lambda>c. c\<lparr>mine := (solution a = 1)\<rparr>), a + 1, b)
                  else Inr (s, a, b))
            else if deep_other g gridx gridy (x, y)
            then (if \<not> b < dh then Inl AssertionFailed
                  else Inr (upd_cell s x y (\<lambda>c. c\<lparr>mine := dh_mines ! nat b\<rparr>), a, b + 1))
            else Inr (s, a, b))"
proof -
  have "write_cell gridx gridy ran_lp solution dh_mines dh (x, y) (Inr (s, a, b)) =
           (if shallowly_hidden s (x, y)
            then (if ran_lp
                  then Inr (upd_cell s x y (\<lambda>c. c\<lparr>mine := (solution a = 1)\<rparr>), a + 1, b)
                  else Inr (s, a, b))
            else if deeply_hidden s (x, y) \<and> (x, y) \<noteq> (gridx, gridy)
            then (if \<not> b < dh then Inl AssertionFailed
                  else Inr (upd_cell s x y (\<lambda>c. c\<lparr>mine := dh_mines ! nat b\<rparr>), a, b + 1))
            else Inr (s, a, b))"
    by (simp add: write_cell_def hidden_class_iff)
  then show ?thesis
    by (simp add: only_mines_differ_classes [OF assms] deep_other_def)
qed

lemma write_cell_fold:
  assumes ok: "grid_ok g"
  shows "distinct cs \<Longrightarrow> \<forall>(i, j) \<in> set cs. in_grid g i j \<Longrightarrow> only_mines_differ g s \<Longrightarrow>
     fold (write_cell gridx gridy ran_lp solution dh_mines dh) cs (Inr (s, a, b)) = Inr (s', a', b')
     \<Longrightarrow> only_mines_differ g s'
         \<and> b' = b + int (length (filter (deep_other g gridx gridy) cs))
         \<and> (filter (deep_other g gridx gridy) cs \<noteq> [] \<longrightarrow> b' \<le> dh)
         \<and> (\<forall>x y. in_grid g x y \<longrightarrow> mine (cell_at s' x y) =
               (if (x, y) \<in> set cs \<and> shallowly_hidden g (x, y) \<and> ran_lp
                then solution (a + int (rank_of (shallowly_hidden g) cs (x, y))) = 1
                else if (x, y) \<in> set cs \<and> deep_other g gridx gridy (x, y)
                then dh_mines ! nat (b + int (rank_of (deep_other g gridx gridy) cs (x, y)))
                else mine (cell_at s x y)))"
proof (induction cs arbitrary: s a b)
  case Nil
  then show ?case by simp
next
  case (Cons c cs)
  obtain i j where c: "c = (i, j)" by (cases c)
  have ij: "in_grid g i j" and notin: "(i, j) \<notin> set cs" and dcs: "distinct cs"
    and incs: "\<forall>(i, j) \<in> set cs. in_grid g i j"
    using Cons.prems c by auto
  have oks: "grid_ok s" "in_grid s = in_grid g"
    using Cons.prems(3) ok by (simp_all add: only_mines_differ_geometry)
  have excl: "\<not> (shallowly_hidden g (i, j) \<and> deep_other g gridx gridy (i, j))"
    using class_exclusive(1) [of g "(i, j)"] by (auto simp add: deep_other_def)
  define W where "W = write_cell gridx gridy ran_lp solution dh_mines dh"
  have step: "fold W cs (W (i, j) (Inr (s, a, b))) = Inr (s', a', b')"
    using Cons.prems(4) by (simp add: c W_def)
  have Winl: "fold W cs (Inl e) = Inl e" for e
    unfolding W_def by (rule fold_sum_Inl) simp
  note ws = write_cell_step [OF Cons.prems(3) ok ij, of gridx gridy ran_lp solution dh_mines dh a b,
                             folded W_def]
  consider (sh) "shallowly_hidden g (i, j)" "ran_lp"
    | (dp) "deep_other g gridx gridy (i, j)" "\<not> shallowly_hidden g (i, j)"
    | (no) "\<not> (shallowly_hidden g (i, j) \<and> ran_lp)" "\<not> deep_other g gridx gridy (i, j)"
    using excl by blast
  then show ?case
  proof cases
    case sh
    define s1 where "s1 = upd_cell s i j (\<lambda>c. c\<lparr>mine := (solution a = 1)\<rparr>)"
    have w: "W (i, j) (Inr (s, a, b)) = Inr (s1, a + 1, b)"
      using ws sh by (simp add: s1_def)
    have r1: "only_mines_differ g s1"
      unfolding s1_def by (rule only_mines_differ_upd [OF Cons.prems(3)])
    have c1: "in_grid g x y \<Longrightarrow> mine (cell_at s1 x y)
                = (if x = i \<and> y = j then solution a = 1 else mine (cell_at s x y))" for x y
      using oks ij by (simp add: s1_def cell_at_upd_cell)
    have IH: "only_mines_differ g s'
         \<and> b' = b + int (length (filter (deep_other g gridx gridy) cs))
         \<and> (filter (deep_other g gridx gridy) cs \<noteq> [] \<longrightarrow> b' \<le> dh)
         \<and> (\<forall>x y. in_grid g x y \<longrightarrow> mine (cell_at s' x y) =
               (if (x, y) \<in> set cs \<and> shallowly_hidden g (x, y) \<and> ran_lp
                then solution (a + 1 + int (rank_of (shallowly_hidden g) cs (x, y))) = 1
                else if (x, y) \<in> set cs \<and> deep_other g gridx gridy (x, y)
                then dh_mines ! nat (b + int (rank_of (deep_other g gridx gridy) cs (x, y)))
                else mine (cell_at s1 x y)))"
      using step w by (intro Cons.IH [OF dcs incs r1]) (simp add: W_def)
    show ?thesis
      using IH sh excl notin
      by (auto simp add: c c1 rank_of_Cons algebra_simps)
  next
    case dp
    show ?thesis
    proof (cases "b < dh")
      case False
      then have "W (i, j) (Inr (s, a, b)) = Inl AssertionFailed"
        using ws dp by simp
      then show ?thesis using step Winl by simp
    next
      case True
      define s1 where "s1 = upd_cell s i j (\<lambda>c. c\<lparr>mine := dh_mines ! nat b\<rparr>)"
      have w: "W (i, j) (Inr (s, a, b)) = Inr (s1, a, b + 1)"
        using ws dp True by (simp add: s1_def)
      have r1: "only_mines_differ g s1"
        unfolding s1_def by (rule only_mines_differ_upd [OF Cons.prems(3)])
      have c1: "in_grid g x y \<Longrightarrow> mine (cell_at s1 x y)
                  = (if x = i \<and> y = j then dh_mines ! nat b else mine (cell_at s x y))" for x y
        using oks ij by (simp add: s1_def cell_at_upd_cell)
      have IH: "only_mines_differ g s'
           \<and> b' = b + 1 + int (length (filter (deep_other g gridx gridy) cs))
           \<and> (filter (deep_other g gridx gridy) cs \<noteq> [] \<longrightarrow> b' \<le> dh)
           \<and> (\<forall>x y. in_grid g x y \<longrightarrow> mine (cell_at s' x y) =
                 (if (x, y) \<in> set cs \<and> shallowly_hidden g (x, y) \<and> ran_lp
                  then solution (a + int (rank_of (shallowly_hidden g) cs (x, y))) = 1
                  else if (x, y) \<in> set cs \<and> deep_other g gridx gridy (x, y)
                  then dh_mines ! nat (b + 1 + int (rank_of (deep_other g gridx gridy) cs (x, y)))
                  else mine (cell_at s1 x y)))"
        using step w by (intro Cons.IH [OF dcs incs r1]) (simp add: W_def)
      have le: "b' \<le> dh"
      proof (cases "filter (deep_other g gridx gridy) cs = []")
        case True
        then show ?thesis using IH \<open>b < dh\<close> by simp
      next
        case False
        then show ?thesis using IH by simp
      qed
      show ?thesis
        using IH dp notin le
        by (auto simp add: c c1 rank_of_Cons algebra_simps)
    qed
  next
    case no
    have w: "W (i, j) (Inr (s, a, b)) = Inr (s, a, b)"
      using ws no by auto
    have IH: "only_mines_differ g s'
         \<and> b' = b + int (length (filter (deep_other g gridx gridy) cs))
         \<and> (filter (deep_other g gridx gridy) cs \<noteq> [] \<longrightarrow> b' \<le> dh)
         \<and> (\<forall>x y. in_grid g x y \<longrightarrow> mine (cell_at s' x y) =
               (if (x, y) \<in> set cs \<and> shallowly_hidden g (x, y) \<and> ran_lp
                then solution (a + int (rank_of (shallowly_hidden g) cs (x, y))) = 1
                else if (x, y) \<in> set cs \<and> deep_other g gridx gridy (x, y)
                then dh_mines ! nat (b + int (rank_of (deep_other g gridx gridy) cs (x, y)))
                else mine (cell_at s x y)))"
      using step w by (intro Cons.IH [OF dcs incs Cons.prems(3)]) (simp add: W_def)
    show ?thesis
      using IH no notin
      by (auto simp add: c rank_of_Cons algebra_simps)
  qed
qed


section \<open>Counting mines\<close>

lemma fold_count1:
  "fold (\<lambda>c count. if P c then count + 1 else count) xs (n :: int)
     = n + int (length (filter P xs))"
  by (induction xs arbitrary: n) auto

lemma div_bound:
  assumes "0 < (w::int)" "i < w * h"
  shows "i div w < h"
proof -
  have "w * (i div w) \<le> i"
    using assms(1) by (metis mult.commute pos_mod_sign mult_div_mod_eq add_increasing2 le_add_same_cancel1 order_refl)
  then have "w * (i div w) < w * h" using assms(2) by simp
  then show ?thesis using assms(1) by (simp add: mult_less_cancel_left_pos)
qed

lemma cell_index_bij:
  assumes "grid_ok g"
  shows "bij_betw (\<lambda>(x, y). grid_width g * y + x) {(x, y). in_grid g x y}
           {0 ..< grid_width g * grid_height g}"
  unfolding bij_betw_def
proof
  show "inj_on (\<lambda>(x, y). grid_width g * y + x) {(x, y). in_grid g x y}"
  proof (rule inj_onI)
    fix c d assume c: "c \<in> {(x, y). in_grid g x y}" and d: "d \<in> {(x, y). in_grid g x y}"
      and e: "(case c of (x, y) \<Rightarrow> grid_width g * y + x) = (case d of (x, y) \<Rightarrow> grid_width g * y + x)"
    obtain x y i j where cd: "c = (x, y)" "d = (i, j)" by (cases c, cases d)
    have "idx g x y = idx g i j" using e by (simp add: cd idx_def)
    then show "c = d" using idx_inj [of g x y i j] c d by (simp add: cd)
  qed
next
  let ?w = "grid_width g" and ?h = "grid_height g"
  show "(\<lambda>(x, y). ?w * y + x) ` {(x, y). in_grid g x y} = {0 ..< ?w * ?h}"
  proof (intro equalityI subsetI)
    fix i assume "i \<in> (\<lambda>(x, y). ?w * y + x) ` {(x, y). in_grid g x y}"
    then obtain x y where xy: "in_grid g x y" and i: "i = ?w * y + x" by auto
    have "0 \<le> i" using xy i by (simp add: in_grid_def)
    moreover have "nat i < nat (?w * ?h)"
      using idx_less [OF assms xy] assms by (simp add: idx_def i grid_ok_def)
    ultimately show "i \<in> {0 ..< ?w * ?h}" by simp
  next
    fix i assume "i \<in> {0 ..< ?w * ?h}"
    then have i: "0 \<le> i" "i < ?w * ?h" by simp_all
    have w: "0 < ?w"
      using i assms by (cases "?w = 0") (auto simp add: grid_ok_def)
    have "in_grid g (i mod ?w) (i div ?w)"
      using w i div_bound [OF w i(2)] by (simp add: in_grid_def pos_imp_zdiv_nonneg_iff)
    moreover have "?w * (i div ?w) + i mod ?w = i" by simp
    ultimately show "i \<in> (\<lambda>(x, y). ?w * y + x) ` {(x, y). in_grid g x y}"
      by (metis (mono_tags, lifting) case_prod_conv image_iff mem_Collect_eq)
  qed
qed

lemma count_cells_card:
  "count_cells P g = int (card {c. (case c of (x, y) \<Rightarrow> in_grid g x y) \<and> P c})"
proof -
  have "set (filter P (cells g)) = {c. (case c of (x, y) \<Rightarrow> in_grid g x y) \<and> P c}"
    by (auto simp add: set_cells)
  moreover have "card (set (filter P (cells g))) = length (filter P (cells g))"
    by (intro distinct_card) (simp add: distinct_cells)
  ultimately show ?thesis by (simp add: count_cells_def)
qed

lemma mines_total_cells:
  assumes "grid_ok g"
  shows "mines_total g = count_cells (mined g) g"
proof -
  let ?w = "grid_width g" and ?h = "grid_height g"
  let ?A = "{i. 0 \<le> i \<and> i < ?w * ?h \<and> mine (minefield g ! nat i)}"
  let ?B = "{c. (case c of (x, y) \<Rightarrow> in_grid g x y) \<and> mined g c}"
  have "set (filter (\<lambda>i. mine (minefield g ! nat i)) [0 .. ?w * ?h - 1]) = ?A" by auto
  moreover have "card (set (filter (\<lambda>i. mine (minefield g ! nat i)) [0 .. ?w * ?h - 1]))
                   = length (filter (\<lambda>i. mine (minefield g ! nat i)) [0 .. ?w * ?h - 1])"
    by (intro distinct_card) simp
  ultimately have t: "mines_total g = int (card ?A)"
    by (simp add: mines_total_def fold_count1)
  have "bij_betw (\<lambda>(x, y). ?w * y + x) ?B ?A"
  proof (rule bij_betw_subset [OF cell_index_bij [OF assms]])
    show "?B \<subseteq> {(x, y). in_grid g x y}" by auto
    show "(\<lambda>(x, y). ?w * y + x) ` ?B = ?A"
    proof (intro equalityI subsetI)
      fix i assume "i \<in> (\<lambda>(x, y). ?w * y + x) ` ?B"
      then obtain x y where xy: "in_grid g x y" "mined g (x, y)" and i: "i = ?w * y + x" by auto
      have "i \<in> {0 ..< ?w * ?h}"
        using bij_betw_imp_surj_on [OF cell_index_bij [OF assms]] xy(1) i by auto
      then show "i \<in> ?A"
        using xy(2) by (simp add: i mined_def cell_at_def idx_def)
    next
      fix i assume i: "i \<in> ?A"
      then have "i \<in> (\<lambda>(x, y). ?w * y + x) ` {(x, y). in_grid g x y}"
        using bij_betw_imp_surj_on [OF cell_index_bij [OF assms]] by simp
      then obtain x y where xy: "in_grid g x y" and e: "i = ?w * y + x" by auto
      then have "mined g (x, y)" using i by (simp add: mined_def cell_at_def idx_def)
      then show "i \<in> (\<lambda>(x, y). ?w * y + x) ` ?B" using xy e by auto
    qed
  qed
  then have "card ?B = card ?A" by (rule bij_betw_same_card)
  then show ?thesis using t by (simp add: count_cells_card)
qed

lemma rank_of_append_left:
  "d \<in> set cs \<Longrightarrow> rank_of P (cs @ ds) d = rank_of P cs d"
  by (simp add: rank_of_def takeWhile_append1)

lemma rank_of_snoc_new:
  "c \<notin> set cs \<Longrightarrow> rank_of P (cs @ [c]) c = length (filter P cs)"
proof -
  assume "c \<notin> set cs"
  then have "takeWhile (\<lambda>d. d \<noteq> c) (cs @ [c]) = cs @ takeWhile (\<lambda>d. d \<noteq> c) [c]"
    by (intro takeWhile_append2) auto
  then show ?thesis by (simp add: rank_of_def)
qed

lemma rank_filter_count:
  "distinct cs \<Longrightarrow>
   length (filter (\<lambda>c. P c \<and> Q (rank_of P cs c)) cs)
     = length (filter Q [0 ..< length (filter P cs)])"
proof (induction cs rule: rev_induct)
  case Nil
  then show ?case by simp
next
  case (snoc c cs)
  have c: "c \<notin> set cs" and d: "distinct cs" using snoc.prems by simp_all
  have "filter (\<lambda>d. P d \<and> Q (rank_of P (cs @ [c]) d)) cs
          = filter (\<lambda>d. P d \<and> Q (rank_of P cs d)) cs"
    by (intro filter_cong refl) (simp add: rank_of_append_left)
  then have "length (filter (\<lambda>d. P d \<and> Q (rank_of P (cs @ [c]) d)) (cs @ [c]))
          = length (filter (\<lambda>d. P d \<and> Q (rank_of P cs d)) cs)
            + (if P c \<and> Q (length (filter P cs)) then 1 else 0)"
    using c by (simp add: rank_of_snoc_new)
  then show ?case using snoc.IH [OF d] by simp
qed

lemma upto_map_int: "[0 .. int n - 1] = map int [0 ..< n]"
proof (induction n)
  case 0
  then show ?case by simp
next
  case (Suc n)
  have "[0 .. int (Suc n) - 1] = [0 .. int n - 1] @ [int n]"
    using upto_rec2 [of 0 "int n"] by simp
  then show ?case using Suc by simp
qed

lemma lround_binary: "v = 0 \<or> v = 1 \<Longrightarrow> lround v = (if v = 1 then 1 else 0)"
  by (auto simp add: lround_def)

lemma solution_sum:
  assumes "\<forall>j \<in> set js. solution j = 0 \<or> solution j = (1 :: real)"
  shows "fold (\<lambda>j S. S + lround (solution j)) js a
           = a + int (length (filter (\<lambda>j. solution j = 1) js))"
  using assms by (induction js arbitrary: a) (auto simp add: lround_binary)

lemma solution_sum_upto:
  assumes "0 \<le> n" "\<forall>j. 0 \<le> j \<and> j < n \<longrightarrow> solution j = 0 \<or> solution j = (1 :: real)"
  shows "fold (\<lambda>j S. S + lround (solution j)) [0 .. n - 1] 0
           = int (length (filter (\<lambda>k. solution (int k) = 1) [0 ..< nat n]))"
proof -
  have "fold (\<lambda>j S. S + lround (solution j)) [0 .. n - 1] 0
          = int (length (filter (\<lambda>j. solution j = 1) [0 .. n - 1]))"
    using assms(2) by (subst solution_sum) auto
  moreover have "[0 .. n - 1] = map int [0 ..< nat n]"
    using upto_map_int [of "nat n"] assms(1) by simp
  ultimately show ?thesis by (simp add: filter_map comp_def)
qed

lemma count_true_nth:
  "length (filter (\<lambda>k. xs ! k) [0 ..< length xs]) = length (filter (\<lambda>b. b) xs)"
proof -
  have "filter (\<lambda>b. b) (map ((!) xs) [0 ..< length xs])
          = map ((!) xs) (filter (\<lambda>k. xs ! k) [0 ..< length xs])"
    by (simp add: filter_map comp_def)
  then show ?thesis by (metis length_map map_nth)
qed

lemma filter_split3:
  assumes "\<And>c. c \<in> set cs \<Longrightarrow> (A c \<or> B c \<or> C c) \<and> \<not> (A c \<and> B c) \<and> \<not> (A c \<and> C c) \<and> \<not> (B c \<and> C c)"
  shows "length (filter Q cs)
           = length (filter (\<lambda>c. A c \<and> Q c) cs) + length (filter (\<lambda>c. B c \<and> Q c) cs)
             + length (filter (\<lambda>c. C c \<and> Q c) cs)"
  using assms
proof (induction cs)
  case Nil
  then show ?case by simp
next
  case (Cons c cs)
  have "(A c \<or> B c \<or> C c) \<and> \<not> (A c \<and> B c) \<and> \<not> (A c \<and> C c) \<and> \<not> (B c \<and> C c)"
    using Cons.prems [of c] by simp
  moreover have "length (filter Q cs)
           = length (filter (\<lambda>c. A c \<and> Q c) cs) + length (filter (\<lambda>c. B c \<and> Q c) cs)
             + length (filter (\<lambda>c. C c \<and> Q c) cs)"
    using Cons.prems by (intro Cons.IH) auto
  ultimately show ?case by auto
qed

lemma recompute_step_cell:
  fixes g :: game
  defines "F \<equiv> (\<lambda>(x, y) s. upd_cell s x y
                     (\<lambda>c. c\<lparr>adj := word_of_int (count_adjacent_mines s x y)\<rparr>))"
  assumes "grid_ok g" "distinct cs" "\<forall>(i, j) \<in> set cs. in_grid g i j"
  shows "visible_cell_count (fold F cs g) = visible_cell_count g
         \<and> status (fold F cs g) = status g
         \<and> (\<forall>i j. in_grid g i j \<longrightarrow>
               cell_at (fold F cs g) i j =
                   (if (i, j) \<in> set cs
                    then (cell_at g i j)\<lparr>adj := word_of_int (count_adjacent_mines g i j)\<rparr>
                    else cell_at g i j))"
  using assms(2-4)
proof (induction cs arbitrary: g)
  case Nil
  then show ?case by simp
next
  case (Cons c cs)
  obtain x y where c: "c = (x, y)" by (cases c)
  define g1 where "g1 = upd_cell g x y (\<lambda>c. c\<lparr>adj := word_of_int (count_adjacent_mines g x y)\<rparr>)"
  have step: "fold F (c # cs) g = fold F cs g1"
    by (simp add: c F_def g1_def)
  have xy: "in_grid g x y" and notin: "(x, y) \<notin> set cs" using Cons.prems c by auto
  have geo1: "grid_ok g1" "in_grid g1 = in_grid g" "visible_cell_count g1 = visible_cell_count g"
    "status g1 = status g"
    using Cons.prems by (simp_all add: g1_def)
  have cell1: "in_grid g i j \<Longrightarrow> cell_at g1 i j =
                (if i = x \<and> j = y then (cell_at g i j)\<lparr>adj := word_of_int (count_adjacent_mines g x y)\<rparr>
                 else cell_at g i j)" for i j
    using Cons.prems xy by (simp add: g1_def cell_at_upd_cell)
  have mines1: "in_grid g i j \<Longrightarrow> mine (cell_at g1 i j) = mine (cell_at g i j)" for i j
    by (simp add: cell1)
  have nb: "mine_neighbours g1 i j = mine_neighbours g i j" for i j
    using mines1 by (auto simp add: mine_neighbours_def geo1)
  have cnt: "count_adjacent_mines g1 i j = count_adjacent_mines g i j" for i j
    by (simp add: count_adjacent_mines_card nb)
  have IH: "visible_cell_count (fold F cs g1) = visible_cell_count g1
         \<and> status (fold F cs g1) = status g1
         \<and> (\<forall>i j. in_grid g1 i j \<longrightarrow>
               cell_at (fold F cs g1) i j =
                   (if (i, j) \<in> set cs
                    then (cell_at g1 i j)\<lparr>adj := word_of_int (count_adjacent_mines g1 i j)\<rparr>
                    else cell_at g1 i j))"
    using Cons.prems geo1 by (intro Cons.IH) auto
  show ?case
    unfolding step
  proof (intro conjI allI impI)
    show "visible_cell_count (fold F cs g1) = visible_cell_count g" using IH geo1 by simp
    show "status (fold F cs g1) = status g" using IH geo1 by simp
  next
    fix i j assume ij: "in_grid g i j"
    show "cell_at (fold F cs g1) i j =
            (if (i, j) \<in> set (c # cs)
             then (cell_at g i j)\<lparr>adj := word_of_int (count_adjacent_mines g i j)\<rparr>
             else cell_at g i j)"
      using IH geo1 ij notin by (auto simp add: c cnt cell1)
  qed
qed

lemma recompute_minefield_adj_cell:
  assumes "grid_ok g"
  shows "visible_cell_count (recompute_minefield_adj g) = visible_cell_count g"
    and "status (recompute_minefield_adj g) = status g"
    and "in_grid g i j \<Longrightarrow>
           cell_at (recompute_minefield_adj g) i j
             = (cell_at g i j)\<lparr>adj := word_of_int (count_adjacent_mines g i j)\<rparr>"
  using recompute_step_cell [OF assms distinct_cells [of g]]
  by (auto simp add: recompute_minefield_adj_def set_cells)

lemma recompute_minefield_adj_dims:
  "grid_width (recompute_minefield_adj g) = grid_width g"
  "grid_height (recompute_minefield_adj g) = grid_height g"
  "length (minefield (recompute_minefield_adj g)) = length (minefield g)"
  "cells (recompute_minefield_adj g) = cells g"
  "nbrs (recompute_minefield_adj g) = nbrs g"
  using fold_upd_dims [of "\<lambda>x y s c. c\<lparr>adj := word_of_int (count_adjacent_mines s x y)\<rparr>"
                          "cells g" g]
  by (simp_all add: recompute_minefield_adj_def cells_def nbrs_def fun_eq_iff)

lemma commit_result:
  assumes ok: "grid_ok g" and xy: "in_grid g gridx gridy"
    and c: "commit unif g gridx gridy mine_present dp ran_lp solution n sh_mines T dh = Inr (b, g')"
  shows "\<exists>dh_mines.
           random_combination dh
             (T - (if ran_lp then fold (\<lambda>j S. S + lround (solution j)) [0 .. n - 1] 0 else sh_mines))
             unif = Inr dh_mines
         \<and> b \<and> grid_ok g' \<and> in_grid g' = in_grid g \<and> cells g' = cells g
         \<and> visible_cell_count g' = visible_cell_count g \<and> status g' = status g
         \<and> (filter (deep_other g gridx gridy) (cells g) \<noteq> []
              \<longrightarrow> int (length (filter (deep_other g gridx gridy) (cells g))) \<le> dh)
         \<and> (\<forall>x y. in_grid g x y \<longrightarrow>
               mine (cell_at g' x y) =
                 (if dp \<and> (x, y) = (gridx, gridy) then mine_present
                  else written_mine g gridx gridy ran_lp solution dh_mines (x, y))
               \<and> (cell_at g' x y)\<lparr>mine := False, adj := 0\<rparr>
                   = (cell_at g x y)\<lparr>mine := False, adj := 0\<rparr>)"
proof -
  let ?S = "(if ran_lp then fold (\<lambda>j S. S + lround (solution j)) [0 .. n - 1] 0 else sh_mines)"
  obtain dh_mines g1 sh_j dh_j where
    rc: "random_combination dh (T - ?S) unif = Inr dh_mines"
    and f: "fold (write_cell gridx gridy ran_lp solution dh_mines dh) (cells g) (Inr (g, 0, 0))
          = Inr (g1, sh_j, dh_j)"
    and g': "g' = recompute_minefield_adj
                    (if dp then upd_cell g1 gridx gridy (\<lambda>c. c\<lparr>mine := mine_present\<rparr>) else g1)"
    and b: "b"
    using c by (auto simp add: commit_def Let_def split: sum.splits prod.splits)
  define g2 where "g2 = (if dp then upd_cell g1 gridx gridy (\<lambda>c. c\<lparr>mine := mine_present\<rparr>) else g1)"
  have incs: "\<forall>(i, j) \<in> set (cells g). in_grid g i j" by (simp add: set_cells)
  note wf = write_cell_fold [OF ok distinct_cells incs only_mines_differ_refl f]
  have r1: "only_mines_differ g g1" using wf by simp
  have r2: "only_mines_differ g g2"
    unfolding g2_def using r1 by (simp add: only_mines_differ_upd)
  have ok1: "grid_ok g1" "in_grid g1 = in_grid g"
    using r1 ok by (simp_all add: only_mines_differ_geometry)
  have ok2: "grid_ok g2" "in_grid g2 = in_grid g" "cells g2 = cells g"
    using r2 ok by (simp_all add: only_mines_differ_geometry)
  have m1: "in_grid g x y \<Longrightarrow> mine (cell_at g1 x y)
              = written_mine g gridx gridy ran_lp solution dh_mines (x, y)" for x y
    using wf class_exclusive(1) [of g "(x, y)"]
    by (auto simp add: written_mine_def set_cells mined_def deep_other_def)
  have m2: "in_grid g x y \<Longrightarrow> mine (cell_at g2 x y)
              = (if dp \<and> (x, y) = (gridx, gridy) then mine_present
                 else written_mine g gridx gridy ran_lp solution dh_mines (x, y))" for x y
    using ok1 xy m1 by (simp add: g2_def cell_at_upd_cell)
  have geo': "grid_ok g'" "in_grid g' = in_grid g" "cells g' = cells g"
    using recompute_minefield_adj_layout(1,2) [OF ok2(1)] ok2
    by (simp_all add: g' g2_def [symmetric] recompute_minefield_adj_dims)
  have cnt': "visible_cell_count g' = visible_cell_count g" "status g' = status g"
    using recompute_minefield_adj_cell(1,2) [OF ok2(1)] r2
    by (simp_all add: g' g2_def [symmetric] only_mines_differ_def)
  have cell': "mine (cell_at g' x y) =
                 (if dp \<and> (x, y) = (gridx, gridy) then mine_present
                  else written_mine g gridx gridy ran_lp solution dh_mines (x, y))
               \<and> (cell_at g' x y)\<lparr>mine := False, adj := 0\<rparr>
                   = (cell_at g x y)\<lparr>mine := False, adj := 0\<rparr>" if "in_grid g x y" for x y
  proof -
    have e: "cell_at g' x y = (cell_at g2 x y)\<lparr>adj := word_of_int (count_adjacent_mines g2 x y)\<rparr>"
      using recompute_minefield_adj_cell(3) [OF ok2(1), of x y] that ok2
      by (simp add: g' g2_def [symmetric])
    have "(cell_at g2 x y)\<lparr>mine := False\<rparr> = (cell_at g x y)\<lparr>mine := False\<rparr>"
      by (rule only_mines_differ_cell [OF r2 ok that])
    then have "(cell_at g2 x y)\<lparr>mine := False\<rparr>\<lparr>adj := 0\<rparr> = (cell_at g x y)\<lparr>mine := False\<rparr>\<lparr>adj := 0\<rparr>"
      by (simp only:)
    then show ?thesis using e m2 [OF that] by simp
  qed
  have bound: "filter (deep_other g gridx gridy) (cells g) \<noteq> []
              \<longrightarrow> int (length (filter (deep_other g gridx gridy) (cells g))) \<le> dh"
    using wf by auto
  show ?thesis
    using rc b geo' cnt' bound cell' by blast
qed

lemma random_combination_shape:
  assumes "random_combination n k unif = Inr m" "unif_ok unif"
  shows "0 \<le> k \<and> k \<le> n \<and> length m = nat n \<and> length (filter (\<lambda>b. b) m) = nat k"
proof -
  have k: "0 \<le> k" "k \<le> n"
    using assms(1) by (auto simp add: random_combination_def split: if_splits)
  have d: "draws_ok n k unif"
    using assms(2) k by (auto simp add: draws_ok_def unif_ok_def)
  obtain c where c: "random_combination n k unif = Inr c" "length c = nat n"
      "selected c = floyd_set n k unif"
    using random_combination_selected [OF k d] by blast
  have "card (floyd_set n (int (nat k)) unif) = nat k"
    using floyd_set_props [of "nat k" n unif] k d by simp
  then have "length (filter (\<lambda>b. b) c) = nat k"
    using c(3) k by (simp add: card_selected [symmetric])
  then show ?thesis using c assms(1) k by simp
qed

lemma class_partition:
  "(shown g c \<or> shallowly_hidden g c \<or> deeply_hidden g c)
   \<and> \<not> (shown g c \<and> shallowly_hidden g c) \<and> \<not> (shown g c \<and> deeply_hidden g c)
   \<and> \<not> (shallowly_hidden g c \<and> deeply_hidden g c)"
  by (cases c) (auto simp add: shown_def shallowly_hidden_def deeply_hidden_def)

lemma count_cells_split:
  "count_cells Q g = count_cells (\<lambda>c. shown g c \<and> Q c) g
                     + count_cells (\<lambda>c. shallowly_hidden g c \<and> Q c) g
                     + count_cells (\<lambda>c. deeply_hidden g c \<and> Q c) g"
proof -
  have "length (filter Q (cells g))
          = length (filter (\<lambda>c. shown g c \<and> Q c) (cells g))
            + length (filter (\<lambda>c. shallowly_hidden g c \<and> Q c) (cells g))
            + length (filter (\<lambda>c. deeply_hidden g c \<and> Q c) (cells g))"
    by (rule filter_split3) (rule class_partition)
  then show ?thesis by (simp only: count_cells_def of_nat_add)
qed

lemma count_cells_cong:
  "(\<And>x y. in_grid g x y \<Longrightarrow> P (x, y) = Q (x, y)) \<Longrightarrow> count_cells P g = count_cells Q g"
  unfolding count_cells_def
  by (rule arg_cong [where f = "\<lambda>xs. int (length xs)"], rule filter_cong) (auto simp add: set_cells)

lemma count_single:
  assumes "in_grid g x y"
  shows "count_cells (\<lambda>c. c = (x, y)) g = 1"
proof -
  have "set (filter (\<lambda>c. c = (x, y)) (cells g)) = {(x, y)}"
    using assms by (auto simp add: set_cells)
  moreover have "distinct (filter (\<lambda>c. c = (x, y)) (cells g))"
    by (simp add: distinct_cells)
  ultimately have "length (filter (\<lambda>c. c = (x, y)) (cells g)) = card {(x, y)}"
    using distinct_card [of "filter (\<lambda>c. c = (x, y)) (cells g)"] by (simp only:)
  then have "length (filter (\<lambda>c. c = (x, y)) (cells g)) = 1" by simp
  then show ?thesis by (simp add: count_cells_def)
qed

lemma count_cells_or:
  assumes "\<And>c. \<not> (P c \<and> Q c)"
  shows "count_cells (\<lambda>c. P c \<or> Q c) g = count_cells P g + count_cells Q g"
proof -
  have "length (filter (\<lambda>c. P c \<or> Q c) cs) = length (filter P cs) + length (filter Q cs)" for cs
    using assms by (induction cs) auto
  then show ?thesis by (simp add: count_cells_def)
qed

lemma count_deep_other:
  assumes "in_grid g gridx gridy"
  shows "count_cells (deep_other g gridx gridy) g
           = count_cells (deeply_hidden g) g - (if deeply_hidden g (gridx, gridy) then 1 else 0)"
proof (cases "deeply_hidden g (gridx, gridy)")
  case True
  have "count_cells (deeply_hidden g) g
          = count_cells (\<lambda>c. deep_other g gridx gridy c \<or> c = (gridx, gridy)) g"
    using True by (intro count_cells_cong) (auto simp add: deep_other_def)
  also have "\<dots> = count_cells (deep_other g gridx gridy) g + count_cells (\<lambda>c. c = (gridx, gridy)) g"
    by (intro count_cells_or) (auto simp add: deep_other_def)
  finally show ?thesis using True count_single [OF assms] by simp
next
  case False
  have "count_cells (deep_other g gridx gridy) g = count_cells (deeply_hidden g) g"
    using False by (intro count_cells_cong) (auto simp add: deep_other_def)
  then show ?thesis using False by simp
qed

lemma commit_conserves:
  fixes g :: game
  defines "sh \<equiv> shallowly_hidden g" and "dp \<equiv> deeply_hidden g"
  assumes ok: "grid_ok g" and xy: "in_grid g gridx gridy" and hid: "\<not> visible (cell_at g gridx gridy)"
    and u: "unif_ok unif"
    and bin: "ran_lp \<longrightarrow> (\<forall>j. 0 \<le> j \<and> j < count_cells sh g
                              \<longrightarrow> solution j = 0 \<or> solution j = 1)"
    and c: "commit unif g gridx gridy mine_present (dp (gridx, gridy)) ran_lp solution
              (count_cells sh g) (count_cells (\<lambda>c. sh c \<and> mined g c) g) T
              (count_cells dp g - (if dp (gridx, gridy) then 1 else 0)) = Inr (b, g')"
  shows "mines_total g' = count_cells (\<lambda>c. shown g c \<and> mined g c) g + T
                            + (if dp (gridx, gridy) \<and> mine_present then 1 else 0)"
proof -
  let ?n = "count_cells sh g"
  let ?dh = "count_cells dp g - (if dp (gridx, gridy) then 1 else 0)"
  let ?S = "(if ran_lp then fold (\<lambda>j S. S + lround (solution j)) [0 .. ?n - 1] 0
             else count_cells (\<lambda>c. sh c \<and> mined g c) g)"
  let ?dpo = "deep_other g gridx gridy"
  obtain dh_mines where rc: "random_combination ?dh (T - ?S) unif = Inr dh_mines"
    and ok': "grid_ok g'" and cells': "cells g' = cells g"
    and m': "\<And>x y. in_grid g x y \<Longrightarrow> mine (cell_at g' x y) =
                 (if dp (gridx, gridy) \<and> (x, y) = (gridx, gridy) then mine_present
                  else written_mine g gridx gridy ran_lp solution dh_mines (x, y))"
    using commit_result [OF ok xy c] by blast
  have shape: "0 \<le> T - ?S" "T - ?S \<le> ?dh" "length dh_mines = nat ?dh"
    "length (filter (\<lambda>b. b) dh_mines) = nat (T - ?S)"
    using random_combination_shape [OF rc u] by simp_all
  define M where "M c = (if dp (gridx, gridy) \<and> c = (gridx, gridy) then mine_present
                       else written_mine g gridx gridy ran_lp solution dh_mines c)" for c
  have total: "mines_total g' = count_cells M g"
  proof -
    have "mines_total g' = count_cells (mined g') g'" by (rule mines_total_cells [OF ok'])
    also have "\<dots> = int (length (filter (mined g') (cells g)))"
      by (simp add: count_cells_def cells')
    also have "filter (mined g') (cells g) = filter M (cells g)"
      by (intro filter_cong refl) (auto simp add: set_cells mined_def m' M_def)
    finally show ?thesis by (simp add: count_cells_def)
  qed
  have notshown: "\<not> shown g (gridx, gridy)" using hid by (simp add: shown_def)
  have part1: "count_cells (\<lambda>c. shown g c \<and> M c) g = count_cells (\<lambda>c. shown g c \<and> mined g c) g"
  proof (rule count_cells_cong)
    fix x y assume "in_grid g x y"
    show "(shown g (x, y) \<and> M (x, y)) = (shown g (x, y) \<and> mined g (x, y))"
      using class_partition [of g "(x, y)"] notshown
      by (auto simp add: M_def written_mine_def deep_other_def sh_def dp_def)
  qed
  have part2: "count_cells (\<lambda>c. sh c \<and> M c) g = ?S"
  proof (cases ran_lp)
    case False
    have "count_cells (\<lambda>c. sh c \<and> M c) g = count_cells (\<lambda>c. sh c \<and> mined g c) g"
    proof (rule count_cells_cong)
      fix x y assume "in_grid g x y"
      show "(sh (x, y) \<and> M (x, y)) = (sh (x, y) \<and> mined g (x, y))"
        using class_partition [of g "(x, y)"] False
        by (auto simp add: M_def written_mine_def sh_def dp_def)
    qed
    then show ?thesis using False by simp
  next
    case True
    have "count_cells (\<lambda>c. sh c \<and> M c) g
            = count_cells (\<lambda>c. sh c \<and> solution (int (rank_of sh (cells g) c)) = 1) g"
    proof (rule count_cells_cong)
      fix x y assume "in_grid g x y"
      show "(sh (x, y) \<and> M (x, y))
              = (sh (x, y) \<and> solution (int (rank_of sh (cells g) (x, y))) = 1)"
        using class_partition [of g "(x, y)"] True
        by (auto simp add: M_def written_mine_def sh_def dp_def)
    qed
    also have "\<dots> = int (length (filter (\<lambda>k. solution (int k) = 1) [0 ..< length (filter sh (cells g))]))"
      unfolding count_cells_def
      using rank_filter_count [OF distinct_cells, of sh "\<lambda>k. solution (int k) = 1" g]
      by simp
    also have "\<dots> = fold (\<lambda>j S. S + lround (solution j)) [0 .. ?n - 1] 0"
      using solution_sum_upto [of ?n solution] bin True
      by (simp add: count_cells_def)
    finally show ?thesis using True by simp
  qed
  have dh_len: "count_cells ?dpo g = ?dh"
    using count_deep_other [OF xy] by (simp add: dp_def)
  have part3: "count_cells (\<lambda>c. dp c \<and> M c) g
                 = (T - ?S) + (if dp (gridx, gridy) \<and> mine_present then 1 else 0)"
  proof -
    have "count_cells (\<lambda>c. dp c \<and> M c) g
            = count_cells (\<lambda>c. (?dpo c \<and> dh_mines ! rank_of ?dpo (cells g) c)
                               \<or> (c = (gridx, gridy) \<and> dp (gridx, gridy) \<and> mine_present)) g"
    proof (rule count_cells_cong)
      fix x y assume "in_grid g x y"
      show "(dp (x, y) \<and> M (x, y))
              = ((?dpo (x, y) \<and> dh_mines ! rank_of ?dpo (cells g) (x, y))
                 \<or> ((x, y) = (gridx, gridy) \<and> dp (gridx, gridy) \<and> mine_present))"
        using class_partition [of g "(x, y)"]
        by (auto simp add: M_def written_mine_def deep_other_def sh_def dp_def)
    qed
    also have "\<dots> = count_cells (\<lambda>c. ?dpo c \<and> dh_mines ! rank_of ?dpo (cells g) c) g
                     + count_cells (\<lambda>c. c = (gridx, gridy) \<and> dp (gridx, gridy) \<and> mine_present) g"
      by (intro count_cells_or) (auto simp add: deep_other_def)
    also have "count_cells (\<lambda>c. c = (gridx, gridy) \<and> dp (gridx, gridy) \<and> mine_present) g
                 = (if dp (gridx, gridy) \<and> mine_present then 1 else 0)"
      using count_single [OF xy] by (auto simp add: count_cells_def)
    also have "count_cells (\<lambda>c. ?dpo c \<and> dh_mines ! rank_of ?dpo (cells g) c) g
                 = int (length (filter (\<lambda>k. dh_mines ! k) [0 ..< length (filter ?dpo (cells g))]))"
      unfolding count_cells_def
      using rank_filter_count [OF distinct_cells, of ?dpo "\<lambda>k. dh_mines ! k" g]
      by simp
    also have "length (filter ?dpo (cells g)) = length dh_mines"
      using dh_len shape(3) by (simp add: count_cells_def)
    also have "int (length (filter (\<lambda>k. dh_mines ! k) [0 ..< length dh_mines])) = T - ?S"
      using shape(1,4) by (simp add: count_true_nth)
    finally show ?thesis .
  qed
  have "count_cells M g = count_cells (\<lambda>c. shown g c \<and> M c) g
                     + count_cells (\<lambda>c. sh c \<and> M c) g + count_cells (\<lambda>c. dp c \<and> M c) g"
    unfolding sh_def dp_def by (rule count_cells_split)
  then show ?thesis
    using total part1 part2 part3 by simp
qed

lemma alter_search_cases:
  assumes "alter_search lib unif g gridx gridy mine_present T0 = Inr (b, g')"
  shows "T0 = sh_mine_count (partition_pass g) + dh_mine_count (partition_pass g)
         \<and> ((num_m (partition_pass g) = 0) = (num_n (partition_pass g) = 0))
         \<and> ((\<not> b \<and> g' = g)
            \<or> commit unif g gridx gridy mine_present
                 (count_adjacent_revealed_cells g gridx gridy = 0) False (\<lambda>j. 0)
                 (num_n (partition_pass g)) (sh_mine_count (partition_pass g))
                 (if count_adjacent_revealed_cells g gridx gridy = 0 \<and> mine_present
                  then T0 - 1 else T0)
                 (if count_adjacent_revealed_cells g gridx gridy = 0
                  then dh_cells (partition_pass g) - 1 else dh_cells (partition_pass g))
                = Inr (b, g')
            \<or> commit unif g gridx gridy mine_present
                 (count_adjacent_revealed_cells g gridx gridy = 0) True
                 (get_variables lib
                    (build_lp g (num_n (partition_pass g)) (column_lookup (partition_pass g))
                       gridx gridy mine_present (count_adjacent_revealed_cells g gridx gridy = 0)
                       (if count_adjacent_revealed_cells g gridx gridy = 0 \<and> mine_present
                        then T0 - 1 else T0)
                       (if count_adjacent_revealed_cells g gridx gridy = 0
                        then dh_cells (partition_pass g) - 1 else dh_cells (partition_pass g))))
                 (num_n (partition_pass g)) (sh_mine_count (partition_pass g))
                 (if count_adjacent_revealed_cells g gridx gridy = 0 \<and> mine_present
                  then T0 - 1 else T0)
                 (if count_adjacent_revealed_cells g gridx gridy = 0
                  then dh_cells (partition_pass g) - 1 else dh_cells (partition_pass g))
                = Inr (b, g'))"
proof -
  let ?p = "partition_pass g"
  let ?deep = "count_adjacent_revealed_cells g gridx gridy = 0"
  let ?T = "(if ?deep \<and> mine_present then T0 - 1 else T0)"
  let ?dh = "(if ?deep then dh_cells ?p - 1 else dh_cells ?p)"
  let ?lp = "build_lp g (num_n ?p) (column_lookup ?p) gridx gridy mine_present ?deep ?T ?dh"
  let ?c0 = "commit unif g gridx gridy mine_present ?deep False (\<lambda>j. 0) (num_n ?p)
               (sh_mine_count ?p) ?T ?dh"
  let ?c1 = "commit unif g gridx gridy mine_present ?deep True (get_variables lib ?lp) (num_n ?p)
               (sh_mine_count ?p) ?T ?dh"
  have a1: "(num_m ?p = 0) = (num_n ?p = 0)"
    using assms unfolding alter_search_def Let_def by (cases "(num_m ?p = 0) = (num_n ?p = 0)") simp_all
  have a2: "T0 = sh_mine_count ?p + dh_mine_count ?p"
    using assms a1 unfolding alter_search_def Let_def
    by (cases "T0 = sh_mine_count ?p + dh_mine_count ?p") simp_all
  have body: "alter_search lib unif g gridx gridy mine_present T0 =
      (if num_m ?p = 0 then ?c0
       else if ?deep \<and> mine_present \<and> dh_mine_count ?p > 0 then ?c0
       else if ?deep \<and> \<not> mine_present \<and> dh_mine_count ?p < ?dh then ?c0
       else if \<not> make_lp_ok lib (num_n ?p) then Inr (False, g)
       else if \<not> (get_Nrows ?lp = num_m ?p + 2 + (if ?deep then 0 else 1))
       then Inl AssertionFailed
       else if solve lib ?lp = OPTIMAL \<or> solve lib ?lp = SUBOPTIMAL then ?c1
       else Inr (False, g))"
    using a1 a2 unfolding alter_search_def Let_def by simp
  have "(\<not> b \<and> g' = g) \<or> ?c0 = Inr (b, g') \<or> ?c1 = Inr (b, g')"
    using assms unfolding body by (auto split: if_splits)
  then show ?thesis using a1 a2 by blast
qed

lemma build_lp_columns [simp]:
  "lp_columns (build_lp g n lookup gridx gridy mine_present dp T dh) = n"
  by (simp add: build_lp_def Let_def number_row_fold)

lemma no_shown_mines:
  assumes "grid_ok g"
    and "mines_total g = sh_mine_count (partition_pass g) + dh_mine_count (partition_pass g)"
  shows "count_cells (\<lambda>c. shown g c \<and> mined g c) g = 0"
  using assms count_cells_split [of "mined g" g]
  by (simp add: mines_total_cells partition_pass_counts)

lemma alter_minefield_conserves:
  assumes ok: "grid_ok g" and xy: "in_grid g gridx gridy" and u: "unif_ok unif"
    and bin: "lib_binary lib"
    and r: "alter_minefield lib unif g gridx gridy mine_present = Inr (b, g')"
  shows "mines_total g' = mines_total g"
proof (cases "g' = g")
  case True
  then show ?thesis by simp
next
  case False
  let ?p = "partition_pass g"
  let ?T0 = "mines_total g"
  have hid: "\<not> visible (cell_at g gridx gridy)"
    and s: "alter_search lib unif g gridx gridy mine_present ?T0 = Inr (b, g')"
    using r False by (auto simp add: alter_minefield_def Let_def split: if_splits)
  note cs = alter_search_cases [OF s]
  have V: "count_cells (\<lambda>c. shown g c \<and> mined g c) g = 0"
    using cs by (intro no_shown_mines [OF ok]) simp
  have dp: "(count_adjacent_revealed_cells g gridx gridy = 0) = deeply_hidden g (gridx, gridy)"
    using hidden_class [OF hid] by simp
  let ?dp = "deeply_hidden g (gridx, gridy)"
  let ?T = "(if ?dp \<and> mine_present then ?T0 - 1 else ?T0)"
  let ?dh = "count_cells (deeply_hidden g) g - (if ?dp then 1 else 0)"
  let ?n = "count_cells (shallowly_hidden g) g"
  let ?shm = "count_cells (\<lambda>c. shallowly_hidden g c \<and> mined g c) g"
  let ?lp = "build_lp g ?n (column_lookup ?p) gridx gridy mine_present ?dp ?T ?dh"
  have dh: "(if ?dp then count_cells (deeply_hidden g) g - 1 else count_cells (deeply_hidden g) g)
              = ?dh"
    by simp
  from cs False have
    "commit unif g gridx gridy mine_present ?dp False (\<lambda>j. 0) ?n ?shm ?T ?dh = Inr (b, g')
     \<or> commit unif g gridx gridy mine_present ?dp True (get_variables lib ?lp) ?n ?shm ?T ?dh
         = Inr (b, g')"
    unfolding dp partition_pass_counts dh by blast
  then show ?thesis
  proof
    assume c: "commit unif g gridx gridy mine_present ?dp False (\<lambda>j. 0) ?n ?shm ?T ?dh = Inr (b, g')"
    show ?thesis
      using commit_conserves [OF ok xy hid u _ c] V by simp
  next
    assume c: "commit unif g gridx gridy mine_present ?dp True (get_variables lib ?lp) ?n ?shm ?T ?dh
                 = Inr (b, g')"
    have "\<forall>j. 0 \<le> j \<and> j < ?n \<longrightarrow> get_variables lib ?lp j = 0 \<or> get_variables lib ?lp j = 1"
      using bin by (simp add: lib_binary_def)
    then show ?thesis
      using commit_conserves [OF ok xy hid u _ c] V by simp
  qed
qed

text \<open>
  C2. With draws in their ranges and a solver whose variables are binary, a call of
  \<^verbatim>\<open>alter_minefield\<close> on a cell of the grid that returns success changes
  \<^verbatim>\<open>mines_total()\<close> by no more than the clicked cell's own change, and a call that
  returns failure leaves it unchanged. In fact the total is the same after every call
  that returns.
\<close>

theorem alter_minefield_mine_conservation:
  assumes "grid_ok g" "in_grid g gridx gridy" "unif_ok unif" "lib_binary lib"
    and "alter_minefield lib unif g gridx gridy mine_present = Inr (ok, g')"
  shows "(ok \<longrightarrow> \<bar>mines_total g' - mines_total g\<bar>
                  \<le> \<bar>(if mine (cell_at g' gridx gridy) then 1 else 0)
                       - (if mine (cell_at g gridx gridy) then 1 else (0 :: int))\<bar>)
         \<and> (\<not> ok \<longrightarrow> mines_total g' = mines_total g)
         \<and> mines_total g' = mines_total g"
  using alter_minefield_conserves [OF assms] by simp

theorem alter_minefield_mine_conservation_witness:
  "grid_ok centre_mine \<and> in_grid centre_mine 1 1 \<and> unif_ok unif_one \<and> lib_binary lib_infeasible
   \<and> (\<exists>g'. alter_minefield lib_infeasible unif_one centre_mine 1 1 False = Inr (True, g')
            \<and> mines_total g' = mines_total centre_mine)
   \<and> grid_ok row4 \<and> in_grid row4 3 0
   \<and> (\<exists>g'. alter_minefield lib_infeasible unif_one row4 3 0 True = Inr (False, g')
            \<and> mines_total g' = mines_total row4)"
proof -
  have a: "grid_ok centre_mine" "in_grid centre_mine 1 1" "grid_ok row4" "in_grid row4 3 0"
    by code_simp+
  have u: "unif_ok unif_one" by (simp add: unif_ok_def unif_one_def)
  have l: "lib_binary lib_infeasible" by (simp add: lib_binary_def lib_infeasible_def)
  have s: "alter_minefield lib_infeasible unif_one centre_mine 1 1 False
             = Inr (True, snd (projr (alter_minefield lib_infeasible unif_one centre_mine 1 1 False)))"
    by code_simp
  have f: "alter_minefield lib_infeasible unif_one row4 3 0 True
             = Inr (False, snd (projr (alter_minefield lib_infeasible unif_one row4 3 0 True)))"
    by code_simp
  show ?thesis
    using a u l
      alter_minefield_mine_conservation [OF a(1,2) u l s]
      alter_minefield_mine_conservation [OF a(3,4) u l f]
    by (metis f s)
qed


end
